theory Spec2Isabelle
  imports Complex_Main "HOL-Library.Log_Nat" "HOL-Library.AList"
begin

section \<open>Python arithmetic used by the program\<close>

text \<open>
  The program computes supports and confidences with Python's true division \<open>/\<close>, whose
  result is a binary64 float: the exact quotient rounded to 53 significant bits, ties
  to even. The quotients that occur (\<open>cnt / n_baskets\<close> with \<open>cnt \<le> n_baskets\<close>, and
  quotients of two such values) stay far inside the normal range of binary64, so the
  exponent is left unbounded. A finite float is the rational number it denotes;
  comparisons of floats are then comparisons of rationals.
\<close>

definition pow2 :: "int \<Rightarrow> rat" where
  "pow2 e = (if 0 \<le> e then 2 ^ nat e else 1 / 2 ^ nat (- e))"

text \<open>Rounding to the nearest integer, ties to the even one.\<close>

definition round_half_even :: "rat \<Rightarrow> int" where
  "round_half_even x =
     (let f = \<lfloor>x\<rfloor>; r = x - of_int f
      in if r < 1 / 2 then f
         else if 1 / 2 < r then f + 1
         else if even f then f else f + 1)"

text \<open>\<open>ilog2 x\<close> is the exponent \<open>e\<close> of the binade of \<open>x > 0\<close>: \<open>2^e \<le> x < 2^(e+1)\<close>.\<close>

definition ilog2 :: "rat \<Rightarrow> int" where
  "ilog2 x =
     (let (a, b) = quotient_of x; e = bitlen a - bitlen b
      in if pow2 e \<le> x then e else e - 1)"

definition round_float :: "rat \<Rightarrow> rat" where
  "round_float x =
     (if x = 0 then 0
      else if 0 < x then
        (let e = ilog2 x - 52 in of_int (round_half_even (x / pow2 e)) * pow2 e)
      else
        (let e = ilog2 (- x) - 52 in - (of_int (round_half_even (- x / pow2 e)) * pow2 e)))"

datatype py_error = KeyError | IndexError | ZeroDivisionError

text \<open>\<open>a / b\<close> on ints or floats: raises on a zero divisor, else the rounded quotient.\<close>

definition py_truediv :: "rat \<Rightarrow> rat \<Rightarrow> py_error + rat" where
  "py_truediv a b = (if b = 0 then Inl ZeroDivisionError else Inr (round_float (a / b)))"

text \<open>\<open>xs[i]\<close>: a negative index counts from the end; out of range raises.\<close>

definition py_index :: "'a list \<Rightarrow> int \<Rightarrow> py_error + 'a" where
  "py_index xs i =
     (if 0 \<le> i \<and> i < int (length xs) then Inr (xs ! nat i)
      else if i < 0 \<and> - int (length xs) \<le> i then Inr (xs ! nat (int (length xs) + i))
      else Inl IndexError)"

section \<open>The program state\<close>

text \<open>
  An item is a natural number. An itemset (a Python \<open>frozenset\<close>) is a set of items. A
  basket is a Python \<open>set\<close> that the program only iterates and tests for inclusion; it
  is given by the list of its elements in iteration order, and \<open>set basket\<close> is its value.
  A Python \<open>set\<close> of itemsets, which the program iterates, is a duplicate-free list in
  insertion order; a \<open>frozenset\<close> is iterated in ascending order of its items. Python
  leaves these iteration orders open; they decide the order of the lists the program
  builds, never which elements (or how many copies) they hold.
\<close>

type_synonym itemset = "nat set"

type_synonym rule = "itemset \<times> itemset \<times> rat"

record apriori_state =
  baskets :: "nat list list"
  n_baskets :: nat
  min_supp :: rat
  min_conf :: rat
  cand_list :: "itemset list list"
  freq_list :: "itemset list list"
  supp_dict :: "itemset \<rightharpoonup> rat"
  conseq_dict :: "itemset \<rightharpoonup> itemset list list"
  rule_list :: "rule list"

text \<open>\<open>Apriori.__init__\<close>\<close>

definition Apriori :: "nat list list \<Rightarrow> rat \<Rightarrow> rat \<Rightarrow> apriori_state" where
  "Apriori bs ms mc =
     \<lparr>baskets = bs, n_baskets = length bs, min_supp = ms, min_conf = mc,
      cand_list = [], freq_list = [], supp_dict = Map.empty, conseq_dict = Map.empty,
      rule_list = []\<rparr>"

section \<open>Candidate generation\<close>

text \<open>\<open>cands.add(x)\<close> on a set kept as a duplicate-free list.\<close>

definition set_add :: "'a \<Rightarrow> 'a list \<Rightarrow> 'a list" where
  "set_add x xs = (if x \<in> set xs then xs else xs @ [x])"

text \<open>
  The pairs visited by
  \<open>for i, a in enumerate(xs): for j, b in enumerate(xs): if i < j\<close>, in loop order.
\<close>

definition index_pairs :: "'a list \<Rightarrow> ('a \<times> 'a) list" where
  "index_pairs xs = [(a, b). (i, a) \<leftarrow> enumerate 0 xs, (j, b) \<leftarrow> enumerate 0 xs, i < j]"

text \<open>The branch \<open>not k\<close> of \<open>gen_cands\<close>.\<close>

definition singleton_cands :: "nat list list \<Rightarrow> itemset list" where
  "singleton_cands bs =
     fold (\<lambda>basket cands. fold (\<lambda>item cands. set_add {item} cands) basket cands) bs []"

text \<open>The \<open>else\<close> branch of \<open>gen_cands\<close>, from the level \<open>freqs = freq_list[k - 1]\<close>.\<close>

definition join_cands :: "nat \<Rightarrow> itemset list \<Rightarrow> itemset list" where
  "join_cands k freqs =
     fold (\<lambda>(freq_i, freq_j) cands.
             let cand = freq_i \<union> freq_j
             in if card cand = k + 1 then set_add cand cands else cands)
          (index_pairs freqs) []"

definition gen_cands :: "apriori_state \<Rightarrow> nat \<Rightarrow> py_error + apriori_state" where
  "gen_cands s k =
     (case (if k = 0 then Inr (singleton_cands (baskets s))
            else (case py_index (freq_list s) (int k - 1) of
                    Inl e \<Rightarrow> Inl e
                  | Inr freqs \<Rightarrow> Inr (join_cands k freqs))) of
        Inl e \<Rightarrow> Inl e
      | Inr cands \<Rightarrow>
          Inr (if cands \<noteq> [] then s\<lparr>cand_list := cand_list s @ [cands]\<rparr> else s))"

section \<open>Support counting and the frequent-itemset filter\<close>

text \<open>
  \<open>cand_cnt\<close> is a dict iterated by \<open>items()\<close>, so it is an association list in insertion
  order. \<open>cand_cnt[cand] += 1\<close> finds its key: the keys are the candidates themselves.
\<close>

definition count_cands :: "nat list list \<Rightarrow> itemset list \<Rightarrow> (itemset \<times> nat) list" where
  "count_cands bs cands =
     fold (\<lambda>basket cand_cnt.
             fold (\<lambda>cand cand_cnt.
                     if cand \<subseteq> set basket then AList.map_entry cand Suc cand_cnt
                     else cand_cnt)
                  cands cand_cnt)
          bs (fold (\<lambda>k d. AList.update k 0 d) cands [])"

text \<open>The loop \<open>for cand, cnt in cand_cnt.items()\<close> of \<open>gen_freqs\<close>.\<close>

fun scan_counts ::
  "nat \<Rightarrow> rat \<Rightarrow> (itemset \<times> nat) list \<Rightarrow> itemset list \<Rightarrow> (itemset \<rightharpoonup> rat)
     \<Rightarrow> py_error + (itemset list \<times> (itemset \<rightharpoonup> rat))" where
  "scan_counts n ms [] freqs sd = Inr (freqs, sd)"
| "scan_counts n ms ((cand, cnt) # rest) freqs sd =
     (case py_truediv (of_nat cnt) (of_nat n) of
        Inl e \<Rightarrow> Inl e
      | Inr supp \<Rightarrow>
          if ms \<le> supp then scan_counts n ms rest (freqs @ [cand]) (sd(cand \<mapsto> supp))
          else scan_counts n ms rest freqs sd)"

definition gen_freqs :: "apriori_state \<Rightarrow> nat \<Rightarrow> py_error + apriori_state" where
  "gen_freqs s k =
     (case py_index (cand_list s) (int k - 1) of
        Inl e \<Rightarrow> Inl e
      | Inr cands \<Rightarrow>
          (case scan_counts (n_baskets s) (min_supp s) (count_cands (baskets s) cands) []
                  (supp_dict s) of
             Inl e \<Rightarrow> Inl e
           | Inr (freqs, sd) \<Rightarrow>
               Inr (if freqs \<noteq> [] then s\<lparr>freq_list := freq_list s @ [freqs], supp_dict := sd\<rparr>
                    else s\<lparr>supp_dict := sd\<rparr>)))"

section \<open>Rule generation\<close>

definition check_rule ::
  "apriori_state \<Rightarrow> itemset \<Rightarrow> itemset \<Rightarrow> py_error + (bool \<times> apriori_state)" where
  "check_rule s freq conseq =
     (let ante = freq - conseq
      in case supp_dict s freq of
           None \<Rightarrow> Inl KeyError
         | Some supp_freq \<Rightarrow>
             (case supp_dict s ante of
                None \<Rightarrow> Inl KeyError
              | Some supp_ante \<Rightarrow>
                  (case py_truediv supp_freq supp_ante of
                     Inl e \<Rightarrow> Inl e
                   | Inr conf \<Rightarrow>
                       if min_conf s \<le> conf
                       then Inr (True, s\<lparr>rule_list := rule_list s @ [(ante, conseq, conf)]\<rparr>)
                       else Inr (False, s))))"

text \<open>
  The loops of \<open>gen_conseqs\<close> over the consequence candidates \<open>cs\<close>: each is passed to
  \<open>check_rule\<close> and appended to \<open>conseqs\<close> when accepted.
\<close>

fun check_conseqs ::
  "itemset \<Rightarrow> itemset list \<Rightarrow> apriori_state \<Rightarrow> itemset list
     \<Rightarrow> py_error + (apriori_state \<times> itemset list)" where
  "check_conseqs freq [] s conseqs = Inr (s, conseqs)"
| "check_conseqs freq (c # cs) s conseqs =
     (case check_rule s freq c of
        Inl e \<Rightarrow> Inl e
      | Inr (ok, s') \<Rightarrow> check_conseqs freq cs s' (if ok then conseqs @ [c] else conseqs))"

text \<open>
  The consequence candidates of \<open>gen_conseqs\<close>, in loop order: the singletons of \<open>freq\<close>,
  or the unions of size \<open>k + 1\<close> of two earlier consequences (the test on the size comes
  first in the \<open>and\<close>, so only these reach \<open>check_rule\<close>).
\<close>

definition conseq_cands :: "apriori_state \<Rightarrow> itemset \<Rightarrow> nat \<Rightarrow> py_error + itemset list" where
  "conseq_cands s freq k =
     (if k = 0 then Inr (map (\<lambda>item. {item}) (sorted_list_of_set freq))
      else (case conseq_dict s freq of
              None \<Rightarrow> Inl KeyError
            | Some levels \<Rightarrow>
                (case py_index levels (int k - 1) of
                   Inl e \<Rightarrow> Inl e
                 | Inr prev_conseqs \<Rightarrow>
                     Inr (filter (\<lambda>conseq. card conseq = k + 1)
                            (map (\<lambda>(conseq_i, conseq_j). conseq_i \<union> conseq_j)
                               (index_pairs prev_conseqs))))))"

definition gen_conseqs :: "apriori_state \<Rightarrow> itemset \<Rightarrow> nat \<Rightarrow> py_error + apriori_state" where
  "gen_conseqs s freq k =
     (case conseq_cands s freq k of
        Inl e \<Rightarrow> Inl e
      | Inr cs \<Rightarrow>
          (case check_conseqs freq cs s [] of
             Inl e \<Rightarrow> Inl e
           | Inr (s', conseqs) \<Rightarrow>
               if conseqs \<noteq> [] then
                 (case conseq_dict s' freq of
                    None \<Rightarrow> Inl KeyError
                  | Some levels \<Rightarrow>
                      Inr (s'\<lparr>conseq_dict := (conseq_dict s')(freq \<mapsto> levels @ [conseqs])\<rparr>))
               else Inr s'))"

section \<open>The run\<close>

text \<open>
  The \<open>while True\<close> loop of \<open>apriori\<close>, entered with the counter \<open>k\<close>. \<open>None\<close> is a loop
  that never leaves.
\<close>

partial_function (option) freq_loop ::
  "apriori_state \<Rightarrow> nat \<Rightarrow> (py_error + apriori_state) option" where
  "freq_loop s k =
     (case gen_cands s k of
        Inl e \<Rightarrow> Some (Inl e)
      | Inr s1 \<Rightarrow>
          if length (cand_list s1) < k + 1 then Some (Inr s1)
          else (case gen_freqs s1 (k + 1) of
                  Inl e \<Rightarrow> Some (Inl e)
                | Inr s2 \<Rightarrow>
                    if length (freq_list s2) < k + 1 then Some (Inr s2)
                    else freq_loop s2 (k + 1)))"

declare freq_loop.simps [code]

text \<open>The loop \<open>while k < i\<close> for one frequent itemset.\<close>

function conseq_loop :: "apriori_state \<Rightarrow> itemset \<Rightarrow> nat \<Rightarrow> nat \<Rightarrow> py_error + apriori_state" where
  "conseq_loop s freq i k =
     (if k < i then
        (case gen_conseqs s freq k of
           Inl e \<Rightarrow> Inl e
         | Inr s' \<Rightarrow>
             (case conseq_dict s' freq of
                None \<Rightarrow> Inl KeyError
              | Some levels \<Rightarrow>
                  if length levels < k + 1 then Inr s'
                  else conseq_loop s' freq i (k + 1)))
      else Inr s)"
  by pat_completeness auto
termination
  by (relation "measure (\<lambda>(s, freq, i, k). i - k)") auto

declare conseq_loop.simps [simp del]

text \<open>The loop \<open>for freq in freqs\<close>.\<close>

fun level_rules :: "nat \<Rightarrow> itemset list \<Rightarrow> apriori_state \<Rightarrow> py_error + apriori_state" where
  "level_rules i [] s = Inr s"
| "level_rules i (freq # freqs) s =
     (case conseq_loop (s\<lparr>conseq_dict := (conseq_dict s)(freq \<mapsto> [])\<rparr>) freq i 0 of
        Inl e \<Rightarrow> Inl e
      | Inr s' \<Rightarrow> level_rules i freqs s')"

text \<open>The loop \<open>for i, freqs in enumerate(self.freq_list)\<close>.\<close>

fun all_rules :: "(nat \<times> itemset list) list \<Rightarrow> apriori_state \<Rightarrow> py_error + apriori_state" where
  "all_rules [] s = Inr s"
| "all_rules ((i, freqs) # rest) s =
     (if 0 < i then
        (case level_rules i freqs s of
           Inl e \<Rightarrow> Inl e
         | Inr s' \<Rightarrow> all_rules rest s')
      else all_rules rest s)"

text \<open>\<open>Apriori.apriori\<close>\<close>

definition apriori :: "apriori_state \<Rightarrow> (py_error + apriori_state) option" where
  "apriori s =
     (case freq_loop s 0 of
        None \<Rightarrow> None
      | Some (Inl e) \<Rightarrow> Some (Inl e)
      | Some (Inr s') \<Rightarrow> Some (all_rules (enumerate 0 (freq_list s')) s'))"

section \<open>Notions of the specification\<close>

text \<open>The number of baskets that contain the itemset \<open>c\<close> as a subset.\<close>

definition basket_count :: "nat list list \<Rightarrow> itemset \<Rightarrow> nat" where
  "basket_count bs c = length (filter (\<lambda>basket. c \<subseteq> set basket) bs)"

text \<open>
  The support ratio of \<open>c\<close>: that number divided by the total basket count, as the
  float that Python's division gives.
\<close>

definition support_ratio :: "nat list list \<Rightarrow> itemset \<Rightarrow> rat" where
  "support_ratio bs c = round_float (of_nat (basket_count bs c) / of_nat (length bs))"

text \<open>All items that occur in some basket.\<close>

definition items_of :: "nat list list \<Rightarrow> nat set" where
  "items_of bs = (\<Union>basket \<in> set bs. set basket)"

section \<open>Example states\<close>

text \<open>Three baskets and the level of singleton candidates, before \<open>gen_freqs\<close> runs.\<close>

definition c3_state :: apriori_state where
  "c3_state = (Apriori [[1, 2], [1], [2, 3]] (1 / 2) (4 / 5))\<lparr>cand_list := [[{1}, {2}, {3}]]\<rparr>"

text \<open>Two baskets with the level of frequent singletons, and a state without baskets.\<close>

definition c5_state :: apriori_state where
  "c5_state = (Apriori [[1, 2], [2, 3]] (1 / 2) (4 / 5))\<lparr>freq_list := [[{1}, {2}, {3}]]\<rparr>"

definition c5_empty :: apriori_state where
  "c5_empty = (Apriori [] (1 / 2) (4 / 5))\<lparr>freq_list := [[]]\<rparr>"

text \<open>
  The scenario of the specification: five baskets, \<open>min_supp = 0.6\<close> (the float nearest
  to \<open>3/5\<close>) and \<open>min_conf = 0.75\<close> (exactly \<open>3/4\<close>).
\<close>

definition scenario :: apriori_state where
  "scenario = Apriori [[1, 2, 3], [1, 2], [1, 3], [2, 3], [1, 2, 3]] (round_float (3 / 5)) (3 / 4)"

text \<open>Four baskets over three items, with both thresholds at \<open>0.5\<close>.\<close>

definition small_baskets :: "nat list list" where
  "small_baskets = [[1, 2, 3], [1, 2], [1, 2], [3]]"

definition small_run :: apriori_state where
  "small_run = Apriori small_baskets (1 / 2) (1 / 2)"


text \<open>One basket of four items, with the default thresholds \<open>0.5\<close> and \<open>0.8\<close>.\<close>

definition four_items :: apriori_state where
  "four_items = Apriori [[1, 2, 3, 4]] (1 / 2) (round_float (4 / 5))"

section \<open>Invariants of a run\<close>

text \<open>
  What holds of the levels and the support map between two rounds of the level-wise
  loop and ever after, for a run on the baskets \<open>bs\<close> with the thresholds \<open>ms\<close> and \<open>mc\<close>:
  level \<open>j\<close> of \<open>freq_list\<close> holds, once each, exactly the itemsets of \<open>j + 1\<close> items of
  the baskets whose support ratio reaches \<open>ms\<close>, and the support map binds exactly these
  itemsets, each to its support ratio.
\<close>

definition mined :: "nat list list \<Rightarrow> rat \<Rightarrow> rat \<Rightarrow> apriori_state \<Rightarrow> bool" where
  "mined bs ms mc s \<longleftrightarrow>
     baskets s = bs \<and> n_baskets s = length bs \<and> min_supp s = ms \<and> min_conf s = mc \<and>
     length (freq_list s) \<le> length (cand_list s) \<and>
     length (cand_list s) \<le> Suc (length (freq_list s)) \<and>
     (freq_list s \<noteq> [] \<longrightarrow> bs \<noteq> []) \<and>
     (\<forall>j < length (cand_list s).
        distinct (cand_list s ! j) \<and>
        (\<forall>c \<in> set (cand_list s ! j). card c = Suc j \<and> c \<subseteq> items_of bs)) \<and>
     (\<forall>j < length (freq_list s).
        distinct (freq_list s ! j) \<and> set (freq_list s ! j) \<subseteq> set (cand_list s ! j) \<and>
        set (freq_list s ! j) =
          {c. c \<subseteq> items_of bs \<and> card c = Suc j \<and> ms \<le> support_ratio bs c}) \<and>
     (\<forall>c. supp_dict s c =
            (if c \<subseteq> items_of bs \<and> 1 \<le> card c \<and> card c \<le> length (freq_list s) \<and>
                ms \<le> support_ratio bs c
             then Some (support_ratio bs c) else None))"

text \<open>The candidates that \<open>gen_cands\<close> computes in round \<open>k\<close>.\<close>

definition next_cands :: "apriori_state \<Rightarrow> nat \<Rightarrow> itemset list" where
  "next_cands s k =
     (if k = 0 then singleton_cands (baskets s) else join_cands k (freq_list s ! (k - 1)))"

text \<open>
  The two ways in which the level-wise loop is left: candidate generation gave nothing,
  or none of the candidates of the last level reaches \<open>min_supp\<close>.
\<close>

definition loop_done :: "apriori_state \<Rightarrow> bool" where
  "loop_done s \<longleftrightarrow>
     length (cand_list s) = length (freq_list s) \<and> next_cands s (length (freq_list s)) = [] \<or>
     length (cand_list s) = Suc (length (freq_list s)) \<and>
       filter (\<lambda>c. min_supp s \<le> support_ratio (baskets s) c) (last (cand_list s)) = []"

text \<open>The rule phase changes nothing but the consequence map and the rule list.\<close>

definition same_levels :: "apriori_state \<Rightarrow> apriori_state \<Rightarrow> bool" where
  "same_levels s s' \<longleftrightarrow>
     baskets s' = baskets s \<and> n_baskets s' = n_baskets s \<and> min_supp s' = min_supp s \<and>
     min_conf s' = min_conf s \<and> cand_list s' = cand_list s \<and> freq_list s' = freq_list s \<and>
     supp_dict s' = supp_dict s"

text \<open>
  A rule \<open>(A, C, conf)\<close> that is sound for the frequent itemset \<open>F\<close>: \<open>C\<close> is a non-empty
  strict subset of \<open>F\<close>, \<open>A\<close> is the rest of \<open>F\<close>, and \<open>conf\<close> is the quotient of the
  recorded supports of \<open>F\<close> and \<open>A\<close>, as Python divides them, and reaches \<open>min_conf\<close>.
\<close>

definition sound_rule :: "apriori_state \<Rightarrow> itemset \<Rightarrow> rule \<Rightarrow> bool" where
  "sound_rule s F r \<longleftrightarrow>
     (case r of (A, C, conf) \<Rightarrow>
        C \<subseteq> F \<and> C \<noteq> {} \<and> C \<noteq> F \<and> A = F - C \<and>
        (\<exists>supp_F supp_A. supp_dict s F = Some supp_F \<and> supp_dict s A = Some supp_A \<and>
            py_truediv supp_F supp_A = Inr conf) \<and>
        min_conf s \<le> conf)"

text \<open>Every consequence stored for \<open>F\<close> is a subset of \<open>F\<close>.\<close>

definition conseqs_within :: "apriori_state \<Rightarrow> itemset \<Rightarrow> bool" where
  "conseqs_within s F \<longleftrightarrow>
     (\<forall>levels. conseq_dict s F = Some levels \<longrightarrow> (\<forall>l \<in> set levels. \<forall>c \<in> set l. c \<subseteq> F))"

text \<open>
  The lookups and the division of \<open>check_rule\<close> succeed for the itemset \<open>F\<close> and each of
  its non-empty strict subsets taken as consequence.
\<close>

definition lookups_ok :: "apriori_state \<Rightarrow> itemset \<Rightarrow> bool" where
  "lookups_ok s F \<longleftrightarrow>
     supp_dict s F \<noteq> None \<and>
     (\<forall>c. c \<subseteq> F \<and> c \<noteq> {} \<and> c \<noteq> F \<longrightarrow> (\<exists>v. supp_dict s (F - c) = Some v \<and> 0 < v))"


section \<open>Rounding to a float is monotone\<close>

lemma pow2_power_int: "pow2 e = power_int 2 e"
  by (simp add: pow2_def power_int_def field_simps)

lemma pow2_pos: "0 < pow2 e"
  by (simp add: pow2_power_int)

lemma pow2_add: "pow2 (a + b) = pow2 a * pow2 b"
  by (simp add: pow2_power_int power_int_add)

lemma pow2_mono: "a \<le> b \<Longrightarrow> pow2 a \<le> pow2 b"
  by (simp add: pow2_power_int power_int_increasing)

lemma pow2_less_cancel: "pow2 a < pow2 b \<Longrightarrow> a < b"
  using pow2_mono [of b a] by (cases "a < b") auto

lemma pow2_shift52: "pow2 e = 2 ^ 52 * pow2 (e - 52)"
proof -
  have "pow2 52 = 2 ^ 52" by (simp add: pow2_def)
  then show ?thesis using pow2_add [of 52 "e - 52"] by simp
qed

lemma pow2_shift53: "pow2 (e + 1) = 2 ^ 53 * pow2 (e - 52)"
proof -
  have "pow2 53 = 2 ^ 53" by (simp add: pow2_def)
  then show ?thesis using pow2_add [of 53 "e - 52"] by (simp add: add.commute)
qed

lemma ilog2_bounds:
  assumes "0 < x"
  shows "pow2 (ilog2 x) \<le> x \<and> x < pow2 (ilog2 x + 1)"
proof -
  obtain a b where q: "quotient_of x = (a, b)" by (cases "quotient_of x")
  have b: "0 < b" using q by (rule quotient_of_denom_pos)
  have x: "x = of_int a / of_int b" using q by (rule quotient_of_div)
  have a: "0 < a" using assms b x by (simp add: zero_less_divide_iff)
  define la lb where "la = bitlen a" and "lb = bitlen b"
  have la: "2 ^ nat (la - 1) \<le> a" "a < 2 ^ nat la"
    using bitlen_bounds [OF a] by (simp_all add: la_def)
  have lb: "2 ^ nat (lb - 1) \<le> b" "b < 2 ^ nat lb"
    using bitlen_bounds [OF b] by (simp_all add: lb_def)
  have la1: "1 \<le> la" using a by (simp add: la_def bitlen_alt_def)
  have lb1: "1 \<le> lb" using b by (simp add: lb_def bitlen_alt_def)
  have ra: "pow2 (la - 1) \<le> of_int a" "of_int a < pow2 la"
  proof -
    have "(of_int (2 ^ nat (la - 1)) :: rat) \<le> of_int a" using la(1) by (simp only: of_int_le_iff)
    then show "pow2 (la - 1) \<le> of_int a" using la1 by (simp add: pow2_def)
    have "(of_int a :: rat) < of_int (2 ^ nat la)" using la(2) by (simp only: of_int_less_iff)
    then show "of_int a < pow2 la" using la1 by (simp add: pow2_def)
  qed
  have rb: "pow2 (lb - 1) \<le> of_int b" "of_int b < pow2 lb"
  proof -
    have "(of_int (2 ^ nat (lb - 1)) :: rat) \<le> of_int b" using lb(1) by (simp only: of_int_le_iff)
    then show "pow2 (lb - 1) \<le> of_int b" using lb1 by (simp add: pow2_def)
    have "(of_int b :: rat) < of_int (2 ^ nat lb)" using lb(2) by (simp only: of_int_less_iff)
    then show "of_int b < pow2 lb" using lb1 by (simp add: pow2_def)
  qed
  have bpos: "(0::rat) < of_int b" using b by simp
  have up: "x < pow2 (la - lb + 1)"
  proof -
    have "of_int a < pow2 (la - lb + 1) * pow2 (lb - 1)"
      using ra(2) by (simp add: pow2_add [symmetric])
    also have "\<dots> \<le> pow2 (la - lb + 1) * of_int b"
      using rb(1) pow2_pos [of "la - lb + 1"] by (simp add: mult_left_mono)
    finally show ?thesis using bpos by (simp add: x pos_divide_less_eq)
  qed
  have lo: "pow2 (la - lb - 1) \<le> x"
  proof -
    have "pow2 (la - lb - 1) * of_int b \<le> pow2 (la - lb - 1) * pow2 lb"
      using rb(2) pow2_pos [of "la - lb - 1"] by (simp add: mult_left_mono)
    also have "\<dots> = pow2 (la - 1)" by (simp add: pow2_add [symmetric])
    also have "\<dots> \<le> of_int a" by (rule ra(1))
    finally show ?thesis using bpos by (simp add: x pos_le_divide_eq)
  qed
  show ?thesis
    using up lo by (simp add: ilog2_def q la_def [symmetric] lb_def [symmetric] Let_def)
qed

lemma ilog2_mono:
  assumes "0 < x" "x \<le> y"
  shows "ilog2 x \<le> ilog2 y"
proof -
  have "pow2 (ilog2 x) \<le> x" using ilog2_bounds [OF assms(1)] by simp
  also have "x \<le> y" by fact
  also have "y < pow2 (ilog2 y + 1)" using ilog2_bounds [of y] assms by simp
  finally have "ilog2 x < ilog2 y + 1" by (rule pow2_less_cancel)
  then show ?thesis by simp
qed

lemma round_half_even_of_int: "round_half_even (of_int n) = n"
  by (simp add: round_half_even_def)

lemma round_half_even_bounds: "\<lfloor>x\<rfloor> \<le> round_half_even x \<and> round_half_even x \<le> \<lfloor>x\<rfloor> + 1"
  by (simp add: round_half_even_def Let_def)

lemma round_half_even_mono:
  assumes "x \<le> y"
  shows "round_half_even x \<le> round_half_even y"
proof (cases "\<lfloor>x\<rfloor> = \<lfloor>y\<rfloor>")
  case True
  then show ?thesis using assms by (auto simp: round_half_even_def Let_def)
next
  case False
  then have "\<lfloor>x\<rfloor> + 1 \<le> \<lfloor>y\<rfloor>" using floor_mono [OF assms] by simp
  then show ?thesis
    using round_half_even_bounds [of x] round_half_even_bounds [of y] by linarith
qed

lemma mantissa_bounds:
  assumes "0 < x"
  shows "2 ^ 52 \<le> round_half_even (x / pow2 (ilog2 x - 52))"
    and "round_half_even (x / pow2 (ilog2 x - 52)) \<le> 2 ^ 53"
proof -
  let ?e = "ilog2 x - 52"
  have p: "pow2 (ilog2 x) = 2 ^ 52 * pow2 ?e" "pow2 (ilog2 x + 1) = 2 ^ 53 * pow2 ?e"
    by (rule pow2_shift52, rule pow2_shift53)
  have lo: "of_int (2 ^ 52) \<le> x / pow2 ?e"
    using ilog2_bounds [OF assms] pow2_pos [of ?e] by (simp add: p pos_le_divide_eq)
  have hi: "x / pow2 ?e \<le> of_int (2 ^ 53)"
    using ilog2_bounds [OF assms] pow2_pos [of ?e] by (simp add: p pos_divide_le_eq)
  show "2 ^ 52 \<le> round_half_even (x / pow2 ?e)"
    using round_half_even_mono [OF lo] by (simp only: round_half_even_of_int)
  show "round_half_even (x / pow2 ?e) \<le> 2 ^ 53"
    using round_half_even_mono [OF hi] by (simp only: round_half_even_of_int)
qed

lemma round_float_pos: "0 < x \<Longrightarrow> 0 < round_float x"
  using mantissa_bounds(1) [of x] pow2_pos [of "ilog2 x - 52"]
  by (simp add: round_float_def Let_def zero_less_mult_iff)

lemma round_float_zero: "round_float 0 = 0"
  by (simp add: round_float_def)

lemma round_float_mono_pos:
  assumes "0 < x" "x \<le> y"
  shows "round_float x \<le> round_float y"
proof -
  have y: "0 < y" using assms by simp
  let ?ex = "ilog2 x - 52" and ?ey = "ilog2 y - 52"
  have rx: "round_float x = of_int (round_half_even (x / pow2 ?ex)) * pow2 ?ex"
    using assms(1) by (simp add: round_float_def Let_def)
  have ry: "round_float y = of_int (round_half_even (y / pow2 ?ey)) * pow2 ?ey"
    using y by (simp add: round_float_def Let_def)
  show ?thesis
  proof (cases "ilog2 x = ilog2 y")
    case True
    have "x / pow2 ?ey \<le> y / pow2 ?ey"
      using assms(2) pow2_pos [of ?ey] by (simp add: divide_right_mono)
    then have "round_half_even (x / pow2 ?ey) \<le> round_half_even (y / pow2 ?ey)"
      by (rule round_half_even_mono)
    then have "(of_int (round_half_even (x / pow2 ?ey)) :: rat) \<le> of_int (round_half_even (y / pow2 ?ey))"
      by (simp only: of_int_le_iff)
    then show ?thesis
      using pow2_pos [of ?ey] by (simp add: rx ry True mult_right_mono)
  next
    case False
    then have lt: "ilog2 x + 1 \<le> ilog2 y" using ilog2_mono [OF assms] by simp
    have "(of_int (round_half_even (x / pow2 ?ex)) :: rat) \<le> of_int (2 ^ 53)"
      using mantissa_bounds(2) [OF assms(1)] by (simp only: of_int_le_iff)
    then have "round_float x \<le> of_int (2 ^ 53) * pow2 ?ex"
      using pow2_pos [of ?ex] by (simp only: rx mult_right_mono)
    also have "\<dots> = pow2 (ilog2 x + 1)"
      by (simp add: pow2_shift53 [of "ilog2 x"])
    also have "\<dots> \<le> pow2 (ilog2 y)" using lt by (rule pow2_mono)
    also have "\<dots> = of_int (2 ^ 52) * pow2 ?ey"
      by (simp add: pow2_shift52 [of "ilog2 y"])
    also have "\<dots> \<le> round_float y"
    proof -
      have "(of_int (2 ^ 52) :: rat) \<le> of_int (round_half_even (y / pow2 ?ey))"
        using mantissa_bounds(1) [OF y] by (simp only: of_int_le_iff)
      then show ?thesis using pow2_pos [of ?ey] by (simp only: ry mult_right_mono)
    qed
    finally show ?thesis .
  qed
qed

lemma round_float_mono:
  assumes "0 \<le> x" "x \<le> y"
  shows "round_float x \<le> round_float y"
proof (cases "x = 0")
  case True
  then show ?thesis
    using round_float_pos [of y] assms by (cases "y = 0") (simp_all add: round_float_zero less_imp_le)
next
  case False
  then show ?thesis using assms round_float_mono_pos [of x y] by simp
qed

lemma round_float_one: "round_float 1 = 1"
  by code_simp

section \<open>Support counting computes the basket counts\<close>

lemma update_fresh: "k \<notin> fst ` set al \<Longrightarrow> AList.update k v al = al @ [(k, v)]"
  by (induction al) auto

lemma dict_of_distinct:
  "distinct cs \<Longrightarrow> set cs \<inter> fst ` set al = {} \<Longrightarrow>
   fold (\<lambda>k d. AList.update k (0::nat) d) cs al = al @ map (\<lambda>c. (c, 0)) cs"
proof (induction cs arbitrary: al)
  case Nil
  then show ?case by simp
next
  case (Cons c cs)
  have "set cs \<inter> fst ` set (al @ [(c, 0)]) = {}" using Cons.prems by auto
  then show ?case using Cons by (simp add: update_fresh)
qed

lemma map_entry_tabulate:
  "distinct cs \<Longrightarrow>
   AList.map_entry c g (map (\<lambda>x. (x, f x)) cs) = map (\<lambda>x. (x, (f(c := g (f c))) x)) cs"
  by (induction cs) auto

lemma count_one_basket:
  "distinct cs \<Longrightarrow> distinct ds \<Longrightarrow>
   fold (\<lambda>cand cand_cnt. if cand \<subseteq> B then AList.map_entry cand Suc cand_cnt else cand_cnt)
     ds (map (\<lambda>x. (x, f x)) cs)
   = map (\<lambda>x. (x, if x \<in> set ds \<and> x \<subseteq> B then Suc (f x) else f x)) cs"
proof (induction ds arbitrary: f)
  case Nil
  then show ?case by simp
next
  case (Cons d ds)
  show ?case
  proof (cases "d \<subseteq> B")
    case True
    have "fold (\<lambda>cand cand_cnt. if cand \<subseteq> B then AList.map_entry cand Suc cand_cnt else cand_cnt)
            (d # ds) (map (\<lambda>x. (x, f x)) cs)
          = map (\<lambda>x. (x, if x \<in> set ds \<and> x \<subseteq> B then Suc ((f(d := Suc (f d))) x)
                           else (f(d := Suc (f d))) x)) cs"
      using Cons True by (simp add: map_entry_tabulate)
    also have "\<dots> = map (\<lambda>x. (x, if x \<in> set (d # ds) \<and> x \<subseteq> B then Suc (f x) else f x)) cs"
      using Cons.prems True by auto
    finally show ?thesis .
  next
    case False
    then show ?thesis using Cons by auto
  qed
qed

lemma count_all_baskets:
  "distinct cs \<Longrightarrow>
   fold (\<lambda>basket cand_cnt.
           fold (\<lambda>cand cand_cnt.
                   if cand \<subseteq> set basket then AList.map_entry cand Suc cand_cnt else cand_cnt)
             cs cand_cnt)
     bs (map (\<lambda>x. (x, f x)) cs)
   = map (\<lambda>x. (x, f x + basket_count bs x)) cs"
proof (induction bs arbitrary: f)
  case Nil
  then show ?case by (simp add: basket_count_def)
next
  case (Cons b bs)
  have "map (\<lambda>x. (x, (if x \<in> set cs \<and> x \<subseteq> set b then Suc (f x) else f x) + basket_count bs x)) cs
        = map (\<lambda>x. (x, f x + basket_count (b # bs) x)) cs"
    by (auto simp: basket_count_def)
  then show ?case using Cons by (simp add: count_one_basket)
qed

lemma count_cands_eq:
  assumes "distinct cs"
  shows "count_cands bs cs = map (\<lambda>c. (c, basket_count bs c)) cs"
proof -
  have "fold (\<lambda>k d. AList.update k (0::nat) d) cs [] = map (\<lambda>c. (c, 0)) cs"
    using dict_of_distinct [OF assms, of "[]"] by simp
  then show ?thesis
    using count_all_baskets [OF assms, of bs "\<lambda>_. 0"] by (simp add: count_cands_def)
qed

section \<open>The frequent-itemset filter\<close>

lemma scan_counts_eq:
  assumes "0 < n"
  shows "scan_counts n ms (map (\<lambda>c. (c, cnt c)) cs) freqs sd =
         Inr (freqs @ filter (\<lambda>c. ms \<le> round_float (of_nat (cnt c) / of_nat n)) cs,
              \<lambda>c. if c \<in> set cs \<and> ms \<le> round_float (of_nat (cnt c) / of_nat n)
                   then Some (round_float (of_nat (cnt c) / of_nat n)) else sd c)"
  using assms
proof (induction cs arbitrary: freqs sd)
  case Nil
  then show ?case by simp
next
  case (Cons c cs)
  then show ?case by (auto simp: py_truediv_def fun_eq_iff)
qed

lemma scan_counts_no_baskets:
  "cs \<noteq> [] \<Longrightarrow> scan_counts 0 ms (map (\<lambda>c. (c, cnt c)) cs) freqs sd = Inl ZeroDivisionError"
  by (cases cs) (simp_all add: py_truediv_def)

lemma py_index_nth: "i < length xs \<Longrightarrow> py_index xs (int (Suc i) - 1) = Inr (xs ! i)"
  by (simp add: py_index_def)

lemma py_index_pred: "1 \<le> k \<Longrightarrow> k \<le> length xs \<Longrightarrow> py_index xs (int k - 1) = Inr (xs ! (k - 1))"
  by (auto simp: py_index_def nat_diff_distrib)

lemma gen_freqs_eq:
  assumes "1 \<le> k" "k \<le> length (cand_list s)" "distinct (cand_list s ! (k - 1))"
    and "baskets s \<noteq> []" "n_baskets s = length (baskets s)"
  shows "gen_freqs s k =
     Inr (let freqs = filter (\<lambda>c. min_supp s \<le> support_ratio (baskets s) c) (cand_list s ! (k - 1));
              sd = (\<lambda>c. if c \<in> set freqs then Some (support_ratio (baskets s) c) else supp_dict s c)
          in if freqs \<noteq> [] then s\<lparr>freq_list := freq_list s @ [freqs], supp_dict := sd\<rparr>
             else s\<lparr>supp_dict := sd\<rparr>)"
proof -
  let ?cs = "cand_list s ! (k - 1)"
  have n: "0 < length (baskets s)" using assms(4) by simp
  have "scan_counts (n_baskets s) (min_supp s) (count_cands (baskets s) ?cs) [] (supp_dict s)
        = Inr (filter (\<lambda>c. min_supp s \<le> support_ratio (baskets s) c) ?cs,
               \<lambda>c. if c \<in> set ?cs \<and> min_supp s \<le> support_ratio (baskets s) c
                    then Some (support_ratio (baskets s) c) else supp_dict s c)"
    using scan_counts_eq [OF n, of "min_supp s" "basket_count (baskets s)" ?cs "[]" "supp_dict s"]
    by (simp only: count_cands_eq [OF assms(3)] support_ratio_def assms(5) append_Nil)
  moreover have "py_index (cand_list s) (int k - 1) = Inr ?cs"
    using assms(1,2) by (rule py_index_pred)
  ultimately show ?thesis
    by (simp add: gen_freqs_def Let_def cong: if_cong)
qed

section \<open>Candidate generation computes the singletons and the joins\<close>

lemma set_set_add: "set (set_add x xs) = insert x (set xs)"
  by (auto simp: set_add_def)

lemma distinct_set_add: "distinct xs \<Longrightarrow> distinct (set_add x xs)"
  by (simp add: set_add_def)

lemma fold_set_add:
  "set (fold (\<lambda>x acc. set_add (f x) acc) xs acc) = set acc \<union> f ` set xs"
  by (induction xs arbitrary: acc) (auto simp: set_set_add)

lemma distinct_fold_set_add:
  "distinct acc \<Longrightarrow> distinct (fold (\<lambda>x acc. set_add (f x) acc) xs acc)"
  by (induction xs arbitrary: acc) (auto simp: distinct_set_add)

lemma fold_baskets:
  "set (fold (\<lambda>basket cands. fold (\<lambda>item cands. set_add {item} cands) basket cands) bs acc)
   = set acc \<union> (\<lambda>x. {x}) ` items_of bs"
  by (induction bs arbitrary: acc) (auto simp: fold_set_add items_of_def)

lemma distinct_fold_baskets:
  "distinct acc \<Longrightarrow>
   distinct (fold (\<lambda>basket cands. fold (\<lambda>item cands. set_add {item} cands) basket cands) bs acc)"
  by (induction bs arbitrary: acc) (auto simp: distinct_fold_set_add)

lemma set_singleton_cands: "set (singleton_cands bs) = (\<lambda>x. {x}) ` items_of bs"
  by (simp add: singleton_cands_def fold_baskets)

lemma distinct_singleton_cands: "distinct (singleton_cands bs)"
  by (simp add: singleton_cands_def distinct_fold_baskets)

lemma enumerate_mem: "p \<in> set (enumerate 0 xs) \<longleftrightarrow> fst p < length xs \<and> xs ! fst p = snd p"
  by (auto simp: in_set_enumerate_eq)

lemma index_pairs_raw:
  "(a, b) \<in> set (index_pairs xs) \<longleftrightarrow>
     (\<exists>p \<in> set (enumerate 0 xs). \<exists>q \<in> set (enumerate 0 xs). fst p < fst q \<and> a = snd p \<and> b = snd q)"
  unfolding index_pairs_def by (simp add: split_def) blast

lemma mem_index_pairs:
  "(a, b) \<in> set (index_pairs xs) \<longleftrightarrow> (\<exists>i j. i < j \<and> j < length xs \<and> a = xs ! i \<and> b = xs ! j)"
proof
  assume "(a, b) \<in> set (index_pairs xs)"
  then obtain p q where "p \<in> set (enumerate 0 xs)" "q \<in> set (enumerate 0 xs)"
    "fst p < fst q" "a = snd p" "b = snd q"
    unfolding index_pairs_raw by blast
  then show "\<exists>i j. i < j \<and> j < length xs \<and> a = xs ! i \<and> b = xs ! j"
    unfolding enumerate_mem by metis
next
  assume "\<exists>i j. i < j \<and> j < length xs \<and> a = xs ! i \<and> b = xs ! j"
  then obtain i j where ij: "i < j" "j < length xs" "a = xs ! i" "b = xs ! j" by blast
  then have "(i, a) \<in> set (enumerate 0 xs)" "(j, b) \<in> set (enumerate 0 xs)"
    by (simp_all add: enumerate_mem)
  then show "(a, b) \<in> set (index_pairs xs)"
    unfolding index_pairs_raw using ij(1) by force
qed

lemma fold_join_filter:
  "fold (\<lambda>(a, b) cands. let cand = a \<union> b in if card cand = n then set_add cand cands else cands)
          ps acc
   = fold (\<lambda>c cands. set_add c cands)
          (filter (\<lambda>c. card c = n) (map (\<lambda>(a, b). a \<union> b) ps)) acc"
proof (induction ps arbitrary: acc)
  case Nil
  then show ?case by simp
next
  case (Cons p ps)
  obtain a b where p: "p = (a, b)" by (cases p)
  show ?case using Cons [of "if card (a \<union> b) = n then set_add (a \<union> b) acc else acc"]
    by (simp add: p Let_def)
qed

lemma set_filter_unions:
  "set (filter (\<lambda>c. card c = n) (map (\<lambda>(a, b). a \<union> b) ps))
   = {a \<union> b | a b. (a, b) \<in> set ps \<and> card (a \<union> b) = n}" (is "?L = ?R")
proof (intro set_eqI iffI)
  fix c
  assume "c \<in> ?L"
  then obtain p where p: "p \<in> set ps" "c = fst p \<union> snd p" "card c = n"
    by (auto simp: split_def)
  have "(fst p, snd p) \<in> set ps" using p(1) by simp
  then show "c \<in> ?R" using p(2,3) by blast
next
  fix c
  assume "c \<in> ?R"
  then obtain a b where "(a, b) \<in> set ps" "c = a \<union> b" "card c = n" by blast
  then show "c \<in> ?L" by (auto simp: image_iff intro!: bexI [of _ "(a, b)"])
qed

lemma fold_set_add_id: "set (fold set_add xs acc) = set acc \<union> set xs"
  by (induction xs arbitrary: acc) (auto simp: set_set_add)

lemma distinct_fold_set_add_id: "distinct acc \<Longrightarrow> distinct (fold set_add xs acc)"
  by (induction xs arbitrary: acc) (auto simp: distinct_set_add)

lemma fold_join:
  "set (fold (\<lambda>(a, b) cands. let cand = a \<union> b in if card cand = n then set_add cand cands else cands)
          ps acc)
   = set acc \<union> {a \<union> b | a b. (a, b) \<in> set ps \<and> card (a \<union> b) = n}"
  unfolding fold_join_filter by (simp only: fold_set_add_id set_filter_unions)

lemma distinct_fold_join:
  "distinct acc \<Longrightarrow>
   distinct (fold (\<lambda>(a, b) cands. let cand = a \<union> b in if card cand = n then set_add cand cands else cands)
          ps acc)"
  unfolding fold_join_filter by (rule distinct_fold_set_add_id)

lemma set_join_cands:
  "set (join_cands k freqs) =
     {freqs ! i \<union> freqs ! j | i j. i < j \<and> j < length freqs \<and> card (freqs ! i \<union> freqs ! j) = k + 1}"
  unfolding join_cands_def fold_join by (auto simp: mem_index_pairs)

lemma distinct_join_cands: "distinct (join_cands k freqs)"
  by (simp add: join_cands_def distinct_fold_join)

lemma join_cands_sized:
  assumes "\<forall>f \<in> set freqs. card f = k"
  shows "set (join_cands k freqs) =
     {a \<union> b | a b. a \<in> set freqs \<and> b \<in> set freqs \<and> a \<noteq> b \<and> card (a \<union> b) = k + 1}"
proof (intro set_eqI iffI)
  fix c
  assume "c \<in> set (join_cands k freqs)"
  then obtain i j where ij: "i < j" "j < length freqs" "c = freqs ! i \<union> freqs ! j"
    "card c = k + 1"
    unfolding set_join_cands by auto
  have "freqs ! i \<noteq> freqs ! j"
  proof
    assume "freqs ! i = freqs ! j"
    then have "card c = k" using ij assms by simp
    then show False using ij(4) by simp
  qed
  then show "c \<in> {a \<union> b | a b. a \<in> set freqs \<and> b \<in> set freqs \<and> a \<noteq> b \<and> card (a \<union> b) = k + 1}"
    using ij by force
next
  fix c
  assume "c \<in> {a \<union> b | a b. a \<in> set freqs \<and> b \<in> set freqs \<and> a \<noteq> b \<and> card (a \<union> b) = k + 1}"
  then obtain a b where ab: "a \<in> set freqs" "b \<in> set freqs" "a \<noteq> b" "c = a \<union> b" "card c = k + 1"
    by auto
  obtain i j where ij: "i < length freqs" "freqs ! i = a" "j < length freqs" "freqs ! j = b"
    using ab(1,2) by (auto simp: in_set_conv_nth)
  have "i \<noteq> j" using ij ab(3) by auto
  then consider "i < j" | "j < i" by linarith
  then show "c \<in> set (join_cands k freqs)"
  proof cases
    case 1
    then show ?thesis unfolding set_join_cands using ij ab by blast
  next
    case 2
    have "c = freqs ! j \<union> freqs ! i" using ij ab by auto
    then show ?thesis unfolding set_join_cands using ij ab 2 by blast
  qed
qed

lemma gen_cands_zero:
  "gen_cands s 0 =
     Inr (if singleton_cands (baskets s) \<noteq> []
          then s\<lparr>cand_list := cand_list s @ [singleton_cands (baskets s)]\<rparr> else s)"
  by (simp add: gen_cands_def)

lemma gen_cands_pos:
  assumes "1 \<le> k" "k \<le> length (freq_list s)"
  shows "gen_cands s k =
     Inr (if join_cands k (freq_list s ! (k - 1)) \<noteq> []
          then s\<lparr>cand_list := cand_list s @ [join_cands k (freq_list s ! (k - 1))]\<rparr> else s)"
  using assms by (simp add: gen_cands_def py_index_pred)

lemma join_cands_Nil: "join_cands k [] = []"
  by (simp add: join_cands_def index_pairs_def)

section \<open>Runs that find no frequent itemset\<close>

lemma freq_loop_no_cands:
  "gen_cands s k = Inr s1 \<Longrightarrow> length (cand_list s1) < k + 1 \<Longrightarrow> freq_loop s k = Some (Inr s1)"
  by (subst freq_loop.simps) simp

lemma freq_loop_no_freqs:
  "gen_cands s k = Inr s1 \<Longrightarrow> \<not> length (cand_list s1) < k + 1 \<Longrightarrow>
   gen_freqs s1 (k + 1) = Inr s2 \<Longrightarrow> length (freq_list s2) < k + 1 \<Longrightarrow>
   freq_loop s k = Some (Inr s2)"
  by (subst freq_loop.simps) simp

lemma freq_loop_next:
  "gen_cands s k = Inr s1 \<Longrightarrow> \<not> length (cand_list s1) < k + 1 \<Longrightarrow>
   gen_freqs s1 (k + 1) = Inr s2 \<Longrightarrow> \<not> length (freq_list s2) < k + 1 \<Longrightarrow>
   freq_loop s k = freq_loop s2 (k + 1)"
  by (subst freq_loop.simps) simp

lemma apriori_no_levels:
  "freq_loop s 0 = Some (Inr s') \<Longrightarrow> freq_list s' = [] \<Longrightarrow> apriori s = Some (Inr s')"
  by (simp add: apriori_def enumerate_eq_zip)

lemma apriori_no_baskets: "apriori (Apriori [] ms mc) = Some (Inr (Apriori [] ms mc))"
proof -
  have g: "gen_cands (Apriori [] ms mc) 0 = Inr (Apriori [] ms mc)"
    by (simp add: gen_cands_zero singleton_cands_def Apriori_def)
  have l: "freq_loop (Apriori [] ms mc) 0 = Some (Inr (Apriori [] ms mc))"
    using g by (rule freq_loop_no_cands) (simp add: Apriori_def)
  have f: "freq_list (Apriori [] ms mc) = []" by (simp add: Apriori_def)
  show ?thesis using l f by (rule apriori_no_levels)
qed

lemma basket_count_le: "basket_count bs c \<le> length bs"
  by (simp add: basket_count_def)

lemma support_ratio_le_one: "support_ratio bs c \<le> 1"
proof -
  have "(of_nat (basket_count bs c) :: rat) / of_nat (length bs) \<le> 1"
    using basket_count_le [of bs c] by (simp add: divide_le_eq_1)
  moreover have "(0::rat) \<le> of_nat (basket_count bs c) / of_nat (length bs)" by simp
  ultimately have "round_float (of_nat (basket_count bs c) / of_nat (length bs)) \<le> round_float 1"
    by (intro round_float_mono)
  then show ?thesis by (simp add: support_ratio_def round_float_one)
qed

lemma apriori_min_supp_above_one:
  assumes "1 < ms"
  shows "\<exists>s. apriori (Apriori bs ms mc) = Some (Inr s) \<and> freq_list s = [] \<and>
             supp_dict s = Map.empty \<and> rule_list s = []"
proof (cases "singleton_cands bs = []")
  case True
  let ?s = "Apriori bs ms mc"
  have g: "gen_cands ?s 0 = Inr ?s"
    using True by (simp add: gen_cands_zero Apriori_def)
  have l: "freq_loop ?s 0 = Some (Inr ?s)"
    using g by (rule freq_loop_no_cands) (simp add: Apriori_def)
  have f: "freq_list ?s = []" by (simp add: Apriori_def)
  have "apriori ?s = Some (Inr ?s)"
    using l f by (rule apriori_no_levels)
  then show ?thesis by (simp add: Apriori_def)
next
  case False
  let ?s = "Apriori bs ms mc"
  let ?s1 = "?s\<lparr>cand_list := [singleton_cands bs]\<rparr>"
  have bs: "bs \<noteq> []" using False by (auto simp: singleton_cands_def)
  have g: "gen_cands ?s 0 = Inr ?s1"
    using False by (simp add: gen_cands_zero Apriori_def)
  have none: "filter (\<lambda>c. min_supp ?s1 \<le> support_ratio (baskets ?s1) c) (cand_list ?s1 ! (1 - 1)) = []"
  proof -
    have "\<not> ms \<le> support_ratio bs c" for c
      using support_ratio_le_one [of bs c] assms by simp
    then show ?thesis by (simp add: Apriori_def)
  qed
  have a: "(1::nat) \<le> 1" "1 \<le> length (cand_list ?s1)" "distinct (cand_list ?s1 ! (1 - 1))"
    "baskets ?s1 \<noteq> []" "n_baskets ?s1 = length (baskets ?s1)"
    using bs by (simp_all add: Apriori_def distinct_singleton_cands)
  have gf: "gen_freqs ?s1 (0 + 1) = Inr ?s1"
    using gen_freqs_eq [OF a] unfolding Let_def none by (simp add: Apriori_def)
  have l: "freq_loop ?s 0 = Some (Inr ?s1)"
    using g _ gf by (rule freq_loop_no_freqs) (simp_all add: Apriori_def)
  have f: "freq_list ?s1 = []" by (simp add: Apriori_def)
  have "apriori ?s = Some (Inr ?s1)"
    using l f by (rule apriori_no_levels)
  then show ?thesis by (simp add: Apriori_def)
qed

section \<open>Two runs, evaluated\<close>

lemma scenario_run:
  "(case apriori scenario of
      Some (Inr s) \<Rightarrow>
        map set (freq_list s) = [{{1}, {2}, {3}}, {{1, 2}, {1, 3}, {2, 3}}] \<and>
        map (supp_dict s) [{1}, {2}, {3}, {1, 2}, {1, 3}, {2, 3}, {1, 2, 3}] =
          [Some (round_float (4 / 5)), Some (round_float (4 / 5)), Some (round_float (4 / 5)),
           Some (round_float (3 / 5)), Some (round_float (3 / 5)), Some (round_float (3 / 5)), None] \<and>
        rule_list s = []
    | _ \<Rightarrow> False)"
  by code_simp

lemma scenario_confidence:
  "py_truediv (round_float (3 / 5)) (round_float (4 / 5)) = Inr (6755399441055743 / 9007199254740992) \<and>
   (6755399441055743 / 9007199254740992 :: rat) < 3 / 4 \<and>
   support_ratio (baskets scenario) {1, 2, 3} = round_float (2 / 5) \<and>
   round_float (2 / 5) < min_supp scenario"
  by code_simp

lemma scenario_exact:
  "(of_nat (basket_count (baskets scenario) {1, 2}) :: rat) /
     of_nat (basket_count (baskets scenario) {1}) = min_conf scenario"
  by code_simp

lemma four_items_run:
  "(case apriori four_items of
      Some (Inr s) \<Rightarrow> count_list (rule_list s) ({4}, {1, 2, 3}, 1) = 3 \<and>
                      {1, 2, 3, 4} \<in> set (freq_list s ! 3)
    | _ \<Rightarrow> False)"
  by code_simp

section \<open>Support is antimonotone\<close>

lemma basket_count_antimono: "A \<subseteq> B \<Longrightarrow> basket_count bs B \<le> basket_count bs A"
proof (induction bs)
  case Nil
  then show ?case by (simp add: basket_count_def)
next
  case (Cons b bs)
  then show ?case by (auto simp: basket_count_def)
qed

lemma support_ratio_antimono:
  assumes "A \<subseteq> B"
  shows "support_ratio bs B \<le> support_ratio bs A"
proof -
  have "(of_nat (basket_count bs B) :: rat) \<le> of_nat (basket_count bs A)"
    using basket_count_antimono [OF assms, of bs] by simp
  then have "(of_nat (basket_count bs B) :: rat) / of_nat (length bs)
             \<le> of_nat (basket_count bs A) / of_nat (length bs)"
    by (simp add: divide_right_mono)
  moreover have "(0::rat) \<le> of_nat (basket_count bs B) / of_nat (length bs)" by simp
  ultimately show ?thesis unfolding support_ratio_def by (rule round_float_mono [rotated])
qed

lemma support_ratio_nonneg: "0 \<le> support_ratio bs c"
proof -
  have "round_float 0 \<le> round_float (of_nat (basket_count bs c) / of_nat (length bs))"
    by (rule round_float_mono) simp_all
  then show ?thesis by (simp add: support_ratio_def round_float_zero)
qed

lemma finite_items_of: "finite (items_of bs)"
  by (simp add: items_of_def)

section \<open>The join finds every larger frequent itemset\<close>

lemma join_complete:
  assumes lev: "set fs = {c. c \<subseteq> U \<and> card c = k \<and> P c}"
    and anti: "\<And>a b. a \<subseteq> b \<Longrightarrow> P b \<Longrightarrow> P a"
    and k: "1 \<le> k"
  shows "{c \<in> set (join_cands k fs). P c} = {c. c \<subseteq> U \<and> card c = Suc k \<and> P c}"
proof (intro set_eqI iffI)
  fix c
  assume "c \<in> {c \<in> set (join_cands k fs). P c}"
  then obtain i j where "i < j" "j < length fs" "c = fs ! i \<union> fs ! j" "card c = k + 1" "P c"
    unfolding set_join_cands by auto
  moreover have "fs ! i \<in> set fs" "fs ! j \<in> set fs" using calculation by simp_all
  ultimately show "c \<in> {c. c \<subseteq> U \<and> card c = Suc k \<and> P c}" using lev by auto
next
  fix c
  assume "c \<in> {c. c \<subseteq> U \<and> card c = Suc k \<and> P c}"
  then have c: "c \<subseteq> U" "card c = Suc k" "P c" by simp_all
  have fin: "finite c" using c(2) by (intro card_ge_0_finite) simp
  have "2 \<le> card c" using c(2) k by simp
  then obtain x y where xy: "x \<in> c" "y \<in> c" "x \<noteq> y"
    by (metis card_le_Suc0_iff_eq fin not_less_eq_eq numeral_2_eq_2)
  let ?a = "c - {x}" and ?b = "c - {y}"
  have ca: "card ?a = k" "card ?b = k" using xy c(2) fin by simp_all
  have "?a \<in> set fs" "?b \<in> set fs"
    using lev c(1) ca anti [of ?a c] anti [of ?b c] c(3) by auto
  moreover have "?a \<noteq> ?b" using xy by auto
  moreover have "?a \<union> ?b = c" using xy by auto
  moreover have "\<forall>f \<in> set fs. card f = k" using lev by simp
  ultimately have "c \<in> set (join_cands k fs)"
    unfolding join_cands_sized [OF \<open>\<forall>f \<in> set fs. card f = k\<close>] using c(2) by force
  then show "c \<in> {c \<in> set (join_cands k fs). P c}" using c(3) by simp
qed

lemma join_sound:
  assumes "\<forall>f \<in> set fs. f \<subseteq> U"
  shows "\<forall>c \<in> set (join_cands k fs). card c = Suc k \<and> c \<subseteq> U"
proof
  fix c
  assume "c \<in> set (join_cands k fs)"
  then obtain i j where ij: "i < j" "j < length fs" "c = fs ! i \<union> fs ! j" "card c = k + 1"
    unfolding set_join_cands by auto
  then have "fs ! i \<in> set fs" "fs ! j \<in> set fs" by simp_all
  then show "card c = Suc k \<and> c \<subseteq> U" using assms ij by auto
qed

lemma singleton_sound: "\<forall>c \<in> set (singleton_cands bs). card c = Suc 0 \<and> c \<subseteq> items_of bs"
  by (auto simp: set_singleton_cands)

lemma singleton_complete:
  "{c \<in> set (singleton_cands bs). P c} = {c. c \<subseteq> items_of bs \<and> card c = Suc 0 \<and> P c}"
  by (auto simp: set_singleton_cands card_Suc_eq)

section \<open>The level-wise loop keeps the invariant and ends\<close>

lemma gen_cands_next:
  assumes "k \<le> length (freq_list s)"
  shows "gen_cands s k =
     Inr (if next_cands s k \<noteq> [] then s\<lparr>cand_list := cand_list s @ [next_cands s k]\<rparr> else s)"
proof (cases "k = 0")
  case True
  then show ?thesis by (simp add: gen_cands_zero next_cands_def)
next
  case False
  then have "1 \<le> k" by simp
  then show ?thesis using assms False by (simp add: gen_cands_pos next_cands_def)
qed

lemma next_cands_props:
  assumes m: "mined bs ms mc s" and k: "length (freq_list s) = k"
  shows "distinct (next_cands s k)"
    and "\<forall>c \<in> set (next_cands s k). card c = Suc k \<and> c \<subseteq> items_of bs"
    and "{c \<in> set (next_cands s k). ms \<le> support_ratio bs c}
         = {c. c \<subseteq> items_of bs \<and> card c = Suc k \<and> ms \<le> support_ratio bs c}"
    and "next_cands s k \<noteq> [] \<Longrightarrow> bs \<noteq> []"
proof -
  have b: "baskets s = bs" using m by (simp add: mined_def)
  show "distinct (next_cands s k)"
    by (simp add: next_cands_def distinct_singleton_cands distinct_join_cands)
  show "\<forall>c \<in> set (next_cands s k). card c = Suc k \<and> c \<subseteq> items_of bs"
  proof (cases "k = 0")
    case True
    then show ?thesis using singleton_sound [of bs] by (simp add: next_cands_def b)
  next
    case False
    then have "k - 1 < length (freq_list s)" using k by simp
    then have "\<forall>f \<in> set (freq_list s ! (k - 1)). f \<subseteq> items_of bs"
      using m unfolding mined_def by blast
    then show ?thesis using join_sound [of "freq_list s ! (k - 1)" "items_of bs" k] False
      by (simp add: next_cands_def)
  qed
  show "{c \<in> set (next_cands s k). ms \<le> support_ratio bs c}
         = {c. c \<subseteq> items_of bs \<and> card c = Suc k \<and> ms \<le> support_ratio bs c}"
  proof (cases "k = 0")
    case True
    then show ?thesis
      using singleton_complete [of bs "\<lambda>c. ms \<le> support_ratio bs c"] by (simp add: next_cands_def b)
  next
    case False
    then have lt: "k - 1 < length (freq_list s)" and k1: "1 \<le> k" using k by simp_all
    have "set (freq_list s ! (k - 1)) =
            {c. c \<subseteq> items_of bs \<and> card c = Suc (k - 1) \<and> ms \<le> support_ratio bs c}"
      using m lt unfolding mined_def by blast
    then have lev: "set (freq_list s ! (k - 1)) =
            {c. c \<subseteq> items_of bs \<and> card c = k \<and> ms \<le> support_ratio bs c}"
      using k1 by simp
    have anti: "\<And>a b. a \<subseteq> b \<Longrightarrow> ms \<le> support_ratio bs b \<Longrightarrow> ms \<le> support_ratio bs a"
      using support_ratio_antimono [of _ _ bs] by (meson order_trans)
    show ?thesis
      using join_complete [OF lev anti k1] False by (simp add: next_cands_def)
  qed
  show "bs \<noteq> []" if "next_cands s k \<noteq> []"
  proof (cases "k = 0")
    case True
    then show ?thesis using that by (auto simp: next_cands_def b singleton_cands_def)
  next
    case False
    then have "freq_list s \<noteq> []" using k by auto
    then show ?thesis using m by (simp add: mined_def)
  qed
qed

lemma minedI:
  assumes "baskets s = bs" "n_baskets s = length bs" "min_supp s = ms" "min_conf s = mc"
    and "length (freq_list s) \<le> length (cand_list s)"
    and "length (cand_list s) \<le> Suc (length (freq_list s))"
    and "freq_list s \<noteq> [] \<Longrightarrow> bs \<noteq> []"
    and "\<And>j. j < length (cand_list s) \<Longrightarrow> distinct (cand_list s ! j) \<and>
           (\<forall>c \<in> set (cand_list s ! j). card c = Suc j \<and> c \<subseteq> items_of bs)"
    and "\<And>j. j < length (freq_list s) \<Longrightarrow> distinct (freq_list s ! j) \<and>
           set (freq_list s ! j) \<subseteq> set (cand_list s ! j) \<and>
           set (freq_list s ! j) =
             {c. c \<subseteq> items_of bs \<and> card c = Suc j \<and> ms \<le> support_ratio bs c}"
    and "\<And>c. supp_dict s c =
            (if c \<subseteq> items_of bs \<and> 1 \<le> card c \<and> card c \<le> length (freq_list s) \<and>
                ms \<le> support_ratio bs c
             then Some (support_ratio bs c) else None)"
  shows "mined bs ms mc s"
  unfolding mined_def using assms by blast

lemma mined_fields:
  assumes "mined bs ms mc s"
  shows "baskets s = bs" "n_baskets s = length bs" "min_supp s = ms" "min_conf s = mc"
    and "length (freq_list s) \<le> length (cand_list s)"
    and "length (cand_list s) \<le> Suc (length (freq_list s))"
    and "freq_list s \<noteq> [] \<Longrightarrow> bs \<noteq> []"
  using assms unfolding mined_def by blast+

lemma mined_cand:
  assumes "mined bs ms mc s" "j < length (cand_list s)"
  shows "distinct (cand_list s ! j)"
    and "\<forall>c \<in> set (cand_list s ! j). card c = Suc j \<and> c \<subseteq> items_of bs"
  using assms unfolding mined_def by blast+

lemma mined_freq:
  assumes "mined bs ms mc s" "j < length (freq_list s)"
  shows "distinct (freq_list s ! j)"
    and "set (freq_list s ! j) \<subseteq> set (cand_list s ! j)"
    and "set (freq_list s ! j) =
           {c. c \<subseteq> items_of bs \<and> card c = Suc j \<and> ms \<le> support_ratio bs c}"
  using assms unfolding mined_def by blast+

lemma mined_supp:
  assumes "mined bs ms mc s"
  shows "supp_dict s c =
            (if c \<subseteq> items_of bs \<and> 1 \<le> card c \<and> card c \<le> length (freq_list s) \<and>
                ms \<le> support_ratio bs c
             then Some (support_ratio bs c) else None)"
  using assms unfolding mined_def by blast

lemma mined_more_cands:
  assumes m: "mined bs ms mc s"
    and k: "length (cand_list s) = k" "length (freq_list s) = k"
  shows "mined bs ms mc (s\<lparr>cand_list := cand_list s @ [next_cands s k]\<rparr>)"
proof (rule minedI)
  let ?s = "s\<lparr>cand_list := cand_list s @ [next_cands s k]\<rparr>"
  note p = next_cands_props [OF m k(2)]
  note f = mined_fields [OF m]
  show "baskets ?s = bs" "n_baskets ?s = length bs" "min_supp ?s = ms" "min_conf ?s = mc"
    using f by simp_all
  show "length (freq_list ?s) \<le> length (cand_list ?s)" using k by simp
  show "length (cand_list ?s) \<le> Suc (length (freq_list ?s))" using k by simp
  show "bs \<noteq> []" if "freq_list ?s \<noteq> []" using that f(7) by simp
  show "distinct (cand_list ?s ! j) \<and>
        (\<forall>c \<in> set (cand_list ?s ! j). card c = Suc j \<and> c \<subseteq> items_of bs)"
    if "j < length (cand_list ?s)" for j
  proof (cases "j < k")
    case True
    then show ?thesis using mined_cand [OF m, of j] k by (simp add: nth_append)
  next
    case False
    then have "j = k" using that k by simp
    then show ?thesis using p(1,2) k by (simp add: nth_append)
  qed
  show "distinct (freq_list ?s ! j) \<and> set (freq_list ?s ! j) \<subseteq> set (cand_list ?s ! j) \<and>
        set (freq_list ?s ! j) =
          {c. c \<subseteq> items_of bs \<and> card c = Suc j \<and> ms \<le> support_ratio bs c}"
    if "j < length (freq_list ?s)" for j
  proof -
    have j: "j < length (freq_list s)" "j < length (cand_list s)" using that k by simp_all
    show ?thesis using mined_freq [OF m j(1)] j(2) by (simp add: nth_append)
  qed
  show "supp_dict ?s c =
            (if c \<subseteq> items_of bs \<and> 1 \<le> card c \<and> card c \<le> length (freq_list ?s) \<and>
                ms \<le> support_ratio bs c
             then Some (support_ratio bs c) else None)" for c
    using mined_supp [OF m, of c] by simp
qed

lemma mined_more_freqs:
  assumes m: "mined bs ms mc s"
    and k: "length (cand_list s) = Suc k" "length (freq_list s) = k"
    and fs: "fs = filter (\<lambda>c. ms \<le> support_ratio bs c) (cand_list s ! k)" "fs \<noteq> []"
    and full: "{c \<in> set (cand_list s ! k). ms \<le> support_ratio bs c}
         = {c. c \<subseteq> items_of bs \<and> card c = Suc k \<and> ms \<le> support_ratio bs c}"
    and bs: "bs \<noteq> []"
  shows "mined bs ms mc
           (s\<lparr>freq_list := freq_list s @ [fs],
              supp_dict := \<lambda>c. if c \<in> set fs then Some (support_ratio bs c) else supp_dict s c\<rparr>)"
proof (rule minedI)
  let ?s = "s\<lparr>freq_list := freq_list s @ [fs],
              supp_dict := \<lambda>c. if c \<in> set fs then Some (support_ratio bs c) else supp_dict s c\<rparr>"
  note f = mined_fields [OF m]
  have setfs: "set fs = {c. c \<subseteq> items_of bs \<and> card c = Suc k \<and> ms \<le> support_ratio bs c}"
    using full by (simp add: fs(1))
  show "baskets ?s = bs" "n_baskets ?s = length bs" "min_supp ?s = ms" "min_conf ?s = mc"
    using f by simp_all
  show "length (freq_list ?s) \<le> length (cand_list ?s)" using k by simp
  show "length (cand_list ?s) \<le> Suc (length (freq_list ?s))" using k by simp
  show "bs \<noteq> []" by (rule bs)
  show "distinct (cand_list ?s ! j) \<and>
        (\<forall>c \<in> set (cand_list ?s ! j). card c = Suc j \<and> c \<subseteq> items_of bs)"
    if "j < length (cand_list ?s)" for j
    using mined_cand [OF m, of j] that by simp
  show "distinct (freq_list ?s ! j) \<and> set (freq_list ?s ! j) \<subseteq> set (cand_list ?s ! j) \<and>
        set (freq_list ?s ! j) =
          {c. c \<subseteq> items_of bs \<and> card c = Suc j \<and> ms \<le> support_ratio bs c}"
    if "j < length (freq_list ?s)" for j
  proof (cases "j < k")
    case True
    then show ?thesis using mined_freq [OF m, of j] k by (simp add: nth_append)
  next
    case False
    then have j: "j = k" using that k by simp
    have "distinct (cand_list s ! k)" using mined_cand(1) [OF m, of k] k by simp
    then have "distinct fs" by (simp add: fs(1))
    moreover have "set fs \<subseteq> set (cand_list s ! k)" by (auto simp: fs(1))
    ultimately show ?thesis using setfs j k by (simp add: nth_append)
  qed
  show "supp_dict ?s c =
            (if c \<subseteq> items_of bs \<and> 1 \<le> card c \<and> card c \<le> length (freq_list ?s) \<and>
                ms \<le> support_ratio bs c
             then Some (support_ratio bs c) else None)" for c
  proof (cases "c \<in> set fs")
    case True
    then show ?thesis using setfs k by simp
  next
    case False
    then have "\<not> (c \<subseteq> items_of bs \<and> card c = Suc k \<and> ms \<le> support_ratio bs c)"
      using setfs by simp
    then show ?thesis using False mined_supp [OF m, of c] k by (auto simp: le_Suc_eq)
  qed
qed

lemma freq_loop_round:
  assumes m: "mined bs ms mc s"
    and k: "length (cand_list s) = k" "length (freq_list s) = k"
  shows "(\<exists>s'. freq_loop s k = Some (Inr s') \<and> mined bs ms mc s' \<and> loop_done s' \<and>
               conseq_dict s' = conseq_dict s \<and> rule_list s' = rule_list s) \<or>
         (\<exists>s2. freq_loop s k = freq_loop s2 (Suc k) \<and> mined bs ms mc s2 \<and>
               length (cand_list s2) = Suc k \<and> length (freq_list s2) = Suc k \<and>
               conseq_dict s2 = conseq_dict s \<and> rule_list s2 = rule_list s \<and>
               Suc k \<le> card (items_of bs))"
proof -
  let ?cs = "next_cands s k"
  note f = mined_fields [OF m]
  note p = next_cands_props [OF m k(2)]
  have g: "gen_cands s k = Inr (if ?cs \<noteq> [] then s\<lparr>cand_list := cand_list s @ [?cs]\<rparr> else s)"
    using k by (simp add: gen_cands_next)
  show ?thesis
  proof (cases "?cs = []")
    case True
    have "freq_loop s k = Some (Inr s)"
      using g k True by (intro freq_loop_no_cands [of s k s]) simp_all
    moreover have "loop_done s" using k True by (simp add: loop_done_def)
    ultimately show ?thesis using m by blast
  next
    case False
    let ?s1 = "s\<lparr>cand_list := cand_list s @ [?cs]\<rparr>"
    let ?fs = "filter (\<lambda>c. ms \<le> support_ratio bs c) ?cs"
    have g1: "gen_cands s k = Inr ?s1" using g False by simp
    have m1: "mined bs ms mc ?s1" using m k by (rule mined_more_cands)
    have bs: "bs \<noteq> []" using p(4) False by simp
    have l1: "\<not> length (cand_list ?s1) < k + 1" using k by simp
    have nth: "cand_list ?s1 ! k = ?cs" using k by (simp add: nth_append)
    have a: "1 \<le> Suc k" "Suc k \<le> length (cand_list ?s1)" "distinct (cand_list ?s1 ! (Suc k - 1))"
      "baskets ?s1 \<noteq> []" "n_baskets ?s1 = length (baskets ?s1)"
      using k p(1) bs f by (simp_all add: nth_append)
    have b1: "baskets ?s1 = bs" "min_supp ?s1 = ms" "cand_list ?s1 ! (Suc k - 1) = ?cs"
      using f k by (simp_all add: nth_append)
    have gf0: "gen_freqs ?s1 (Suc k) =
       Inr (if ?fs \<noteq> []
            then ?s1\<lparr>freq_list := freq_list ?s1 @ [?fs],
                     supp_dict := \<lambda>c. if c \<in> set ?fs then Some (support_ratio bs c)
                                      else supp_dict ?s1 c\<rparr>
            else ?s1\<lparr>supp_dict := \<lambda>c. if c \<in> set ?fs then Some (support_ratio bs c)
                                      else supp_dict ?s1 c\<rparr>)"
      using gen_freqs_eq [OF a] unfolding Let_def b1 .
    note gf = gf0 [unfolded Suc_eq_plus1]
    show ?thesis
    proof (cases "?fs = []")
      case True
      have gf1: "gen_freqs ?s1 (k + 1) = Inr ?s1" using gf True by simp
      have "freq_loop s k = Some (Inr ?s1)"
        using g1 l1 gf1 by (rule freq_loop_no_freqs) (simp add: k)
      moreover have "loop_done ?s1"
        using True k f by (simp add: loop_done_def)
      ultimately show ?thesis using m1 by auto
    next
      case nonempty: False
      let ?s2 = "?s1\<lparr>freq_list := freq_list ?s1 @ [?fs],
                     supp_dict := \<lambda>c. if c \<in> set ?fs then Some (support_ratio bs c)
                                      else supp_dict ?s1 c\<rparr>"
      have gf2: "gen_freqs ?s1 (k + 1) = Inr ?s2" using gf nonempty by simp
      have "freq_loop s k = freq_loop ?s2 (k + 1)"
        using g1 l1 gf2 by (rule freq_loop_next) (simp add: k)
      moreover have "mined bs ms mc ?s2"
      proof (rule mined_more_freqs [OF m1])
        show "length (cand_list ?s1) = Suc k" "length (freq_list ?s1) = k" using k by simp_all
        show "?fs = filter (\<lambda>c. ms \<le> support_ratio bs c) (cand_list ?s1 ! k)"
          by (simp only: nth)
        show "?fs \<noteq> []" by (rule nonempty)
        show "{c \<in> set (cand_list ?s1 ! k). ms \<le> support_ratio bs c}
               = {c. c \<subseteq> items_of bs \<and> card c = Suc k \<and> ms \<le> support_ratio bs c}"
          using p(3) by (simp only: nth)
        show "bs \<noteq> []" by (rule bs)
      qed
      moreover have "Suc k \<le> card (items_of bs)"
      proof -
        obtain c where "c \<in> set ?cs" using False by (cases ?cs) auto
        then have "card c = Suc k" "c \<subseteq> items_of bs" using p(2) by simp_all
        then show ?thesis using card_mono [OF finite_items_of, of c bs] by simp
      qed
      ultimately show ?thesis using k by auto
    qed
  qed
qed

lemma freq_loop_mined_aux:
  assumes "card (items_of bs) - k = n" "mined bs ms mc s"
    and "length (cand_list s) = k" "length (freq_list s) = k"
  shows "\<exists>s'. freq_loop s k = Some (Inr s') \<and> mined bs ms mc s' \<and> loop_done s' \<and>
              conseq_dict s' = conseq_dict s \<and> rule_list s' = rule_list s"
  using assms
proof (induction n arbitrary: s k)
  case 0
  then show ?case using freq_loop_round [of bs ms mc s k] by auto
next
  case (Suc n)
  from freq_loop_round [OF Suc.prems(2,3,4)] show ?case
  proof
    assume "\<exists>s'. freq_loop s k = Some (Inr s') \<and> mined bs ms mc s' \<and> loop_done s' \<and>
               conseq_dict s' = conseq_dict s \<and> rule_list s' = rule_list s"
    then show ?thesis .
  next
    assume "\<exists>s2. freq_loop s k = freq_loop s2 (Suc k) \<and> mined bs ms mc s2 \<and>
               length (cand_list s2) = Suc k \<and> length (freq_list s2) = Suc k \<and>
               conseq_dict s2 = conseq_dict s \<and> rule_list s2 = rule_list s \<and>
               Suc k \<le> card (items_of bs)"
    then obtain s2 where s2: "freq_loop s k = freq_loop s2 (Suc k)" "mined bs ms mc s2"
      "length (cand_list s2) = Suc k" "length (freq_list s2) = Suc k"
      "conseq_dict s2 = conseq_dict s" "rule_list s2 = rule_list s" by blast
    have "card (items_of bs) - Suc k = n" using Suc.prems(1) by simp
    from Suc.IH [OF this s2(2,3,4)] show ?thesis using s2(1,5,6) by simp
  qed
qed

lemma mined_init: "mined bs ms mc (Apriori bs ms mc)"
  by (rule minedI) (simp_all add: Apriori_def)

lemma freq_loop_from_init:
  "\<exists>s'. freq_loop (Apriori bs ms mc) 0 = Some (Inr s') \<and> mined bs ms mc s' \<and> loop_done s' \<and>
        conseq_dict s' = Map.empty \<and> rule_list s' = []"
proof -
  have "length (cand_list (Apriori bs ms mc)) = 0" "length (freq_list (Apriori bs ms mc)) = 0"
    "conseq_dict (Apriori bs ms mc) = Map.empty" "rule_list (Apriori bs ms mc) = []"
    by (simp_all add: Apriori_def)
  then show ?thesis
    using freq_loop_mined_aux [where k = 0 and s = "Apriori bs ms mc" and bs = bs and ms = ms
        and mc = mc, OF refl mined_init]
    by simp
qed

section \<open>What the rule phase changes\<close>

lemma same_levels_refl: "same_levels s s"
  by (simp add: same_levels_def)

lemma same_levels_trans: "same_levels s t \<Longrightarrow> same_levels t u \<Longrightarrow> same_levels s u"
  by (simp add: same_levels_def)

lemma same_levels_fields:
  assumes "same_levels s s'"
  shows "baskets s' = baskets s" "n_baskets s' = n_baskets s" "min_supp s' = min_supp s"
    "min_conf s' = min_conf s" "cand_list s' = cand_list s" "freq_list s' = freq_list s"
    "supp_dict s' = supp_dict s"
  using assms by (simp_all add: same_levels_def)

lemma same_levels_update:
  "same_levels s (s\<lparr>rule_list := rl\<rparr>)" "same_levels s (s\<lparr>conseq_dict := cd\<rparr>)"
  by (simp_all add: same_levels_def)

lemma sound_rule_same_levels: "same_levels s s' \<Longrightarrow> sound_rule s' F r = sound_rule s F r"
  using same_levels_fields(4,7) [of s s'] by (simp add: sound_rule_def)

lemma mined_same_levels: "same_levels s s' \<Longrightarrow> mined bs ms mc s \<Longrightarrow> mined bs ms mc s'"
  unfolding mined_def same_levels_def by (elim conjE) (simp only:, blast)

lemma check_rule_post:
  assumes "check_rule s F c = Inr (ok, s')"
  shows "same_levels s s'" "conseq_dict s' = conseq_dict s"
    and "\<exists>rs. rule_list s' = rule_list s @ rs \<and>
            (\<forall>r \<in> set rs. \<exists>conf supp_F supp_A. r = (F - c, c, conf) \<and> supp_dict s F = Some supp_F \<and>
                supp_dict s (F - c) = Some supp_A \<and> py_truediv supp_F supp_A = Inr conf \<and>
                min_conf s \<le> conf)"
proof -
  obtain supp_F supp_A conf where l: "supp_dict s F = Some supp_F" "supp_dict s (F - c) = Some supp_A"
    "py_truediv supp_F supp_A = Inr conf"
    using assms by (auto simp: check_rule_def Let_def split: option.splits sum.splits)
  have s': "s' = (if min_conf s \<le> conf then s\<lparr>rule_list := rule_list s @ [(F - c, c, conf)]\<rparr> else s)"
    using assms l by (auto simp: check_rule_def Let_def split: if_splits)
  show "same_levels s s'" by (simp add: s' same_levels_update same_levels_refl)
  show "conseq_dict s' = conseq_dict s" by (simp add: s')
  show "\<exists>rs. rule_list s' = rule_list s @ rs \<and>
            (\<forall>r \<in> set rs. \<exists>conf supp_F supp_A. r = (F - c, c, conf) \<and> supp_dict s F = Some supp_F \<and>
                supp_dict s (F - c) = Some supp_A \<and> py_truediv supp_F supp_A = Inr conf \<and>
                min_conf s \<le> conf)"
  proof (cases "min_conf s \<le> conf")
    case True
    then have "rule_list s' = rule_list s @ [(F - c, c, conf)]" by (simp add: s')
    then show ?thesis using l True by auto
  next
    case False
    then have "rule_list s' = rule_list s @ []" by (simp add: s')
    then show ?thesis by (intro exI [of _ "[]"]) simp
  qed
qed

lemma check_rule_sound:
  assumes "check_rule s F c = Inr (ok, s')" "c \<subseteq> F" "c \<noteq> {}" "c \<noteq> F"
  shows "\<exists>rs. rule_list s' = rule_list s @ rs \<and> (\<forall>r \<in> set rs. sound_rule s F r)"
proof -
  obtain rs where rs: "rule_list s' = rule_list s @ rs"
    "\<forall>r \<in> set rs. \<exists>conf supp_F supp_A. r = (F - c, c, conf) \<and> supp_dict s F = Some supp_F \<and>
                supp_dict s (F - c) = Some supp_A \<and> py_truediv supp_F supp_A = Inr conf \<and>
                min_conf s \<le> conf"
    using check_rule_post(3) [OF assms(1)] by blast
  have "\<forall>r \<in> set rs. sound_rule s F r"
  proof
    fix r assume "r \<in> set rs"
    then obtain conf supp_F supp_A where "r = (F - c, c, conf)" "supp_dict s F = Some supp_F"
      "supp_dict s (F - c) = Some supp_A" "py_truediv supp_F supp_A = Inr conf" "min_conf s \<le> conf"
      using rs(2) by blast
    then show "sound_rule s F r" using assms(2,3,4) by (simp add: sound_rule_def)
  qed
  then show ?thesis using rs(1) by blast
qed

lemma check_conseqs_post:
  assumes "check_conseqs F cs s acc = Inr (s', acc')"
    and "\<forall>c \<in> set cs. c \<subseteq> F \<and> c \<noteq> {} \<and> c \<noteq> F"
  shows "same_levels s s' \<and> conseq_dict s' = conseq_dict s \<and>
         (\<exists>rs. rule_list s' = rule_list s @ rs \<and> (\<forall>r \<in> set rs. sound_rule s F r)) \<and>
         set acc' \<subseteq> set acc \<union> set cs"
  using assms
proof (induction cs arbitrary: s acc)
  case Nil
  then show ?case by (simp add: same_levels_refl)
next
  case (Cons c cs)
  obtain ok s1 where c1: "check_rule s F c = Inr (ok, s1)"
    and rest: "check_conseqs F cs s1 (if ok then acc @ [c] else acc) = Inr (s', acc')"
    using Cons.prems(1) by (auto split: sum.splits)
  have c: "c \<subseteq> F" "c \<noteq> {}" "c \<noteq> F" using Cons.prems(2) by simp_all
  note p1 = check_rule_post(1,2) [OF c1]
  obtain rs1 where rs1: "rule_list s1 = rule_list s @ rs1" "\<forall>r \<in> set rs1. sound_rule s F r"
    using check_rule_sound [OF c1 c] by blast
  have ih: "same_levels s1 s' \<and> conseq_dict s' = conseq_dict s1 \<and>
         (\<exists>rs. rule_list s' = rule_list s1 @ rs \<and> (\<forall>r \<in> set rs. sound_rule s1 F r)) \<and>
         set acc' \<subseteq> set (if ok then acc @ [c] else acc) \<union> set cs"
    using Cons.IH [OF rest] Cons.prems(2) by simp
  then obtain rs2 where rs2: "rule_list s' = rule_list s1 @ rs2" "\<forall>r \<in> set rs2. sound_rule s1 F r"
    by blast
  have "\<forall>r \<in> set (rs1 @ rs2). sound_rule s F r"
    using rs1(2) rs2(2) sound_rule_same_levels [OF p1(1)] by auto
  moreover have "rule_list s' = rule_list s @ (rs1 @ rs2)" using rs1(1) rs2(1) by simp
  moreover have "same_levels s s'" using p1(1) ih same_levels_trans by blast
  moreover have "conseq_dict s' = conseq_dict s" using p1(2) ih by simp
  moreover have "set acc' \<subseteq> set acc \<union> set (c # cs)" using ih by (auto split: if_splits)
  ultimately show ?case by blast
qed

lemma py_index_mem: "py_index xs i = Inr x \<Longrightarrow> x \<in> set xs"
  by (auto simp: py_index_def split: if_splits)

lemma conseq_cands_within:
  assumes cs: "conseq_cands s F k = Inr cs" and F: "card F = Suc i" and k: "k < i"
    and w: "conseqs_within s F"
  shows "\<forall>c \<in> set cs. c \<subseteq> F \<and> c \<noteq> {} \<and> c \<noteq> F"
proof (cases "k = 0")
  case True
  have fin: "finite F" using F by (intro card_ge_0_finite) simp
  have "cs = map (\<lambda>item. {item}) (sorted_list_of_set F)"
    using cs True by (simp add: conseq_cands_def)
  then have "set cs = (\<lambda>item. {item}) ` F" using fin by simp
  moreover have "{x} \<noteq> F" for x
  proof
    assume "{x} = F"
    then have "card F = 1" by auto
    then show False using F k by simp
  qed
  ultimately show ?thesis by auto
next
  case False
  then obtain levels prev where lv: "conseq_dict s F = Some levels"
    and prev: "py_index levels (int k - 1) = Inr prev"
    and c: "cs = filter (\<lambda>conseq. card conseq = k + 1)
                (map (\<lambda>(conseq_i, conseq_j). conseq_i \<union> conseq_j) (index_pairs prev))"
    using cs by (auto simp: conseq_cands_def split: option.splits sum.splits)
  have sub: "\<forall>a \<in> set prev. a \<subseteq> F"
    using w lv py_index_mem [OF prev] by (auto simp: conseqs_within_def)
  show ?thesis
  proof
    fix x assume "x \<in> set cs"
    then obtain a b where ab: "(a, b) \<in> set (index_pairs prev)" "x = a \<union> b" "card x = k + 1"
      unfolding c set_filter_unions by blast
    then have "a \<in> set prev" "b \<in> set prev" by (auto simp: mem_index_pairs)
    then have "x \<subseteq> F" using sub ab(2) by auto
    moreover have "x \<noteq> {}" using ab(3) by auto
    moreover have "x \<noteq> F" using ab(3) F k by auto
    ultimately show "x \<subseteq> F \<and> x \<noteq> {} \<and> x \<noteq> F" by simp
  qed
qed

lemma gen_conseqs_post:
  assumes g: "gen_conseqs s F k = Inr s'" and F: "card F = Suc i" and k: "k < i"
    and w: "conseqs_within s F"
  shows "same_levels s s'"
    and "\<exists>rs. rule_list s' = rule_list s @ rs \<and> (\<forall>r \<in> set rs. sound_rule s F r)"
    and "conseqs_within s' F"
    and "\<forall>G. G \<noteq> F \<longrightarrow> conseq_dict s' G = conseq_dict s G"
    and "dom (conseq_dict s') = dom (conseq_dict s)"
proof -
  obtain cs s1 conseqs where cs: "conseq_cands s F k = Inr cs"
    and chk: "check_conseqs F cs s [] = Inr (s1, conseqs)"
    and fin: "(if conseqs \<noteq> [] then
                 (case conseq_dict s1 F of
                    None \<Rightarrow> Inl KeyError
                  | Some levels \<Rightarrow>
                      Inr (s1\<lparr>conseq_dict := (conseq_dict s1)(F \<mapsto> levels @ [conseqs])\<rparr>))
               else Inr s1) = Inr s'"
    using g by (auto simp: gen_conseqs_def split: sum.splits)
  note cw = conseq_cands_within [OF cs F k w]
  from check_conseqs_post [OF chk cw]
  have p: "same_levels s s1" "conseq_dict s1 = conseq_dict s"
    "\<exists>rs. rule_list s1 = rule_list s @ rs \<and> (\<forall>r \<in> set rs. sound_rule s F r)"
    "set conseqs \<subseteq> set cs" by simp_all
  have s': "s' = s1 \<or> (\<exists>levels. conseq_dict s1 F = Some levels \<and>
               s' = s1\<lparr>conseq_dict := (conseq_dict s1)(F \<mapsto> levels @ [conseqs])\<rparr>)"
    using fin by (auto split: if_splits option.splits)
  have sl: "same_levels s1 s'" using s' by (auto simp: same_levels_def)
  show "same_levels s s'" using p(1) sl by (rule same_levels_trans)
  have "rule_list s' = rule_list s1" using s' by auto
  then show "\<exists>rs. rule_list s' = rule_list s @ rs \<and> (\<forall>r \<in> set rs. sound_rule s F r)"
    using p(3) by simp
  have old: "c \<subseteq> F" if "conseq_dict s F = Some lv0" "l \<in> set lv0" "c \<in> set l" for lv0 l c
    using w that unfolding conseqs_within_def by blast
  have new: "c \<subseteq> F" if "c \<in> set conseqs" for c
    using that p(4) cw by blast
  show "conseqs_within s' F"
    unfolding conseqs_within_def
  proof (intro allI impI ballI)
    fix levels l c
    assume a: "conseq_dict s' F = Some levels" "l \<in> set levels" "c \<in> set l"
    from s' show "c \<subseteq> F"
    proof
      assume "s' = s1"
      then have "conseq_dict s F = Some levels" using a(1) p(2) by simp
      then show ?thesis using a(2,3) by (rule old)
    next
      assume "\<exists>levels. conseq_dict s1 F = Some levels \<and>
               s' = s1\<lparr>conseq_dict := (conseq_dict s1)(F \<mapsto> levels @ [conseqs])\<rparr>"
      then obtain lv0 where lv0: "conseq_dict s F = Some lv0" "levels = lv0 @ [conseqs]"
        using a(1) p(2) by auto
      then consider "l \<in> set lv0" | "l = conseqs" using a(2) by auto
      then show ?thesis
      proof cases
        case 1
        with lv0(1) show ?thesis using a(3) by (rule old)
      next
        case 2
        then show ?thesis using a(3) new by simp
      qed
    qed
  qed
  show "\<forall>G. G \<noteq> F \<longrightarrow> conseq_dict s' G = conseq_dict s G"
  proof (intro allI impI)
    fix G :: itemset
    assume "G \<noteq> F"
    then show "conseq_dict s' G = conseq_dict s G"
      using s' p(2) by (elim disjE exE conjE) simp_all
  qed
  show "dom (conseq_dict s') = dom (conseq_dict s)"
    using s' p(2) by (elim disjE exE conjE) (simp_all add: insert_absorb domI)
qed

lemma conseq_loop_post:
  assumes "conseq_loop s F i k = Inr s'" "card F = Suc i" "conseqs_within s F"
  shows "same_levels s s' \<and>
         (\<exists>rs. rule_list s' = rule_list s @ rs \<and> (\<forall>r \<in> set rs. sound_rule s F r)) \<and>
         dom (conseq_dict s') = dom (conseq_dict s)"
  using assms
proof (induction s F i k rule: conseq_loop.induct)
  case (1 s F i k)
  show ?case
  proof (cases "k < i")
    case False
    then have "s' = s" using "1.prems"(1) by (simp add: conseq_loop.simps [of s F i k])
    then show ?thesis by (simp add: same_levels_refl)
  next
    case True
    obtain s1 levels where g: "gen_conseqs s F k = Inr s1" and lv: "conseq_dict s1 F = Some levels"
      and rest: "(if length levels < k + 1 then Inr s1 else conseq_loop s1 F i (k + 1)) = Inr s'"
      using "1.prems"(1) True
      by (auto simp: conseq_loop.simps [of s F i k] split: sum.splits option.splits)
    note p = gen_conseqs_post [OF g "1.prems"(2) True "1.prems"(3)]
    obtain rs1 where rs1: "rule_list s1 = rule_list s @ rs1" "\<forall>r \<in> set rs1. sound_rule s F r"
      using p(2) by blast
    show ?thesis
    proof (cases "length levels < k + 1")
      case short: True
      then have "s' = s1" using rest by simp
      then show ?thesis using p(1,5) rs1 by blast
    next
      case long: False
      then have r: "conseq_loop s1 F i (k + 1) = Inr s'" using rest by simp
      have ih: "same_levels s1 s' \<and>
         (\<exists>rs. rule_list s' = rule_list s1 @ rs \<and> (\<forall>r \<in> set rs. sound_rule s1 F r)) \<and>
         dom (conseq_dict s') = dom (conseq_dict s1)"
        using "1.IH" [OF True g lv long r "1.prems"(2) p(3)] .
      then obtain rs2 where rs2: "rule_list s' = rule_list s1 @ rs2" "\<forall>r \<in> set rs2. sound_rule s1 F r"
        by blast
      have "\<forall>r \<in> set (rs1 @ rs2). sound_rule s F r"
        using rs1(2) rs2(2) sound_rule_same_levels [OF p(1)] by auto
      moreover have "rule_list s' = rule_list s @ (rs1 @ rs2)" using rs1(1) rs2(1) by simp
      moreover have "same_levels s s'" using p(1) ih same_levels_trans by blast
      moreover have "dom (conseq_dict s') = dom (conseq_dict s)" using p(5) ih by simp
      ultimately show ?thesis by blast
    qed
  qed
qed

lemma level_rules_post:
  assumes "level_rules i Fs s = Inr s'" "\<forall>F \<in> set Fs. card F = Suc i"
  shows "same_levels s s' \<and>
         (\<exists>rs. rule_list s' = rule_list s @ rs \<and> (\<forall>r \<in> set rs. \<exists>F \<in> set Fs. sound_rule s F r)) \<and>
         dom (conseq_dict s') = dom (conseq_dict s) \<union> set Fs"
  using assms
proof (induction Fs arbitrary: s)
  case Nil
  then show ?case by (simp add: same_levels_refl)
next
  case (Cons F Fs)
  let ?s0 = "s\<lparr>conseq_dict := (conseq_dict s)(F \<mapsto> [])\<rparr>"
  obtain s1 where l: "conseq_loop ?s0 F i 0 = Inr s1" and rest: "level_rules i Fs s1 = Inr s'"
    using Cons.prems(1) by (auto split: sum.splits)
  have F: "card F = Suc i" using Cons.prems(2) by simp
  have w: "conseqs_within ?s0 F" by (simp add: conseqs_within_def)
  have sl0: "same_levels s ?s0" by (rule same_levels_update)
  from conseq_loop_post [OF l F w]
  obtain rs1 where p: "same_levels ?s0 s1" "rule_list s1 = rule_list ?s0 @ rs1"
    "\<forall>r \<in> set rs1. sound_rule ?s0 F r" "dom (conseq_dict s1) = dom (conseq_dict ?s0)"
    by blast
  have sl1: "same_levels s s1" using sl0 p(1) by (rule same_levels_trans)
  from Cons.IH [OF rest] Cons.prems(2)
  obtain rs2 where q: "same_levels s1 s'" "rule_list s' = rule_list s1 @ rs2"
    "\<forall>r \<in> set rs2. \<exists>G \<in> set Fs. sound_rule s1 G r"
    "dom (conseq_dict s') = dom (conseq_dict s1) \<union> set Fs"
    by auto
  have "\<forall>r \<in> set (rs1 @ rs2). \<exists>G \<in> set (F # Fs). sound_rule s G r"
    using p(3) q(3) sound_rule_same_levels [OF sl0] sound_rule_same_levels [OF sl1] by auto
  moreover have "rule_list s' = rule_list s @ (rs1 @ rs2)" using p(2) q(2) by simp
  moreover have "same_levels s s'" using sl1 q(1) by (rule same_levels_trans)
  moreover have "dom (conseq_dict s') = dom (conseq_dict s) \<union> set (F # Fs)"
    using p(4) q(4) by auto
  ultimately show ?case by blast
qed

lemma all_rules_post:
  assumes "all_rules lv s = Inr s'"
    and "\<forall>i Fs F. (i, Fs) \<in> set lv \<longrightarrow> F \<in> set Fs \<longrightarrow> card F = Suc i"
  shows "same_levels s s' \<and>
         (\<exists>rs. rule_list s' = rule_list s @ rs \<and>
            (\<forall>r \<in> set rs. \<exists>i Fs F. (i, Fs) \<in> set lv \<and> 0 < i \<and> F \<in> set Fs \<and> sound_rule s F r)) \<and>
         dom (conseq_dict s') =
           dom (conseq_dict s) \<union> {F. \<exists>i Fs. (i, Fs) \<in> set lv \<and> 0 < i \<and> F \<in> set Fs}"
  using assms
proof (induction lv arbitrary: s)
  case Nil
  then show ?case by (simp add: same_levels_refl)
next
  case (Cons p lv)
  obtain i Fs where p: "p = (i, Fs)" by (cases p)
  have tl: "\<forall>i Fs F. (i, Fs) \<in> set lv \<longrightarrow> F \<in> set Fs \<longrightarrow> card F = Suc i"
    using Cons.prems(2) by (meson list.set_intros(2))
  show ?case
  proof (cases "0 < i")
    case False
    then have rest: "all_rules lv s = Inr s'" using Cons.prems(1) p by simp
    from Cons.IH [OF rest tl]
    obtain rs where q: "same_levels s s'" "rule_list s' = rule_list s @ rs"
      "\<forall>r \<in> set rs. \<exists>i Fs F. (i, Fs) \<in> set lv \<and> 0 < i \<and> F \<in> set Fs \<and> sound_rule s F r"
      "dom (conseq_dict s') =
           dom (conseq_dict s) \<union> {F. \<exists>i Fs. (i, Fs) \<in> set lv \<and> 0 < i \<and> F \<in> set Fs}"
      by blast
    have "\<forall>r \<in> set rs. \<exists>i Fs F. (i, Fs) \<in> set (p # lv) \<and> 0 < i \<and> F \<in> set Fs \<and> sound_rule s F r"
      using q(3) by (simp only: set_simps) blast
    moreover have "{F. \<exists>j Gs. (j, Gs) \<in> set (p # lv) \<and> 0 < j \<and> F \<in> set Gs}
        = {F. \<exists>j Gs. (j, Gs) \<in> set lv \<and> 0 < j \<and> F \<in> set Gs}"
      using False p by auto
    ultimately show ?thesis using q(1,2,4) by (simp only:) blast
  next
    case True
    then obtain s1 where l: "level_rules i Fs s = Inr s1" and rest: "all_rules lv s1 = Inr s'"
      using Cons.prems(1) p by (auto split: sum.splits)
    have c: "\<forall>F \<in> set Fs. card F = Suc i" using Cons.prems(2) p by simp
    from level_rules_post [OF l c]
    obtain rs1 where a: "same_levels s s1" "rule_list s1 = rule_list s @ rs1"
      "\<forall>r \<in> set rs1. \<exists>F \<in> set Fs. sound_rule s F r"
      "dom (conseq_dict s1) = dom (conseq_dict s) \<union> set Fs"
      by blast
    from Cons.IH [OF rest tl]
    obtain rs2 where q: "same_levels s1 s'" "rule_list s' = rule_list s1 @ rs2"
      "\<forall>r \<in> set rs2. \<exists>j Gs G. (j, Gs) \<in> set lv \<and> 0 < j \<and> G \<in> set Gs \<and> sound_rule s1 G r"
      "dom (conseq_dict s') =
         dom (conseq_dict s1) \<union> {F. \<exists>j Gs. (j, Gs) \<in> set lv \<and> 0 < j \<and> F \<in> set Gs}"
      by blast
    have "\<forall>r \<in> set (rs1 @ rs2).
            \<exists>j Gs G. (j, Gs) \<in> set (p # lv) \<and> 0 < j \<and> G \<in> set Gs \<and> sound_rule s G r"
    proof
      fix r assume "r \<in> set (rs1 @ rs2)"
      then consider "r \<in> set rs1" | "r \<in> set rs2" by auto
      then show "\<exists>j Gs G. (j, Gs) \<in> set (p # lv) \<and> 0 < j \<and> G \<in> set Gs \<and> sound_rule s G r"
      proof cases
        case 1
        then obtain F where "F \<in> set Fs" "sound_rule s F r" using a(3) by blast
        then have "(i, Fs) \<in> set (p # lv) \<and> 0 < i \<and> F \<in> set Fs \<and> sound_rule s F r"
          using True p by simp
        then show ?thesis by blast
      next
        case 2
        then obtain j Gs G where "(j, Gs) \<in> set lv" "0 < j" "G \<in> set Gs" "sound_rule s1 G r"
          using q(3) by blast
        then have "(j, Gs) \<in> set (p # lv) \<and> 0 < j \<and> G \<in> set Gs \<and> sound_rule s G r"
          using sound_rule_same_levels [OF a(1)] by simp
        then show ?thesis by blast
      qed
    qed
    moreover have "rule_list s' = rule_list s @ (rs1 @ rs2)" using a(2) q(2) by simp
    moreover have "same_levels s s'" using a(1) q(1) by (rule same_levels_trans)
    moreover have "dom (conseq_dict s') =
        dom (conseq_dict s) \<union> {F. \<exists>j Gs. (j, Gs) \<in> set (p # lv) \<and> 0 < j \<and> F \<in> set Gs}"
    proof -
      have "{F. \<exists>j Gs. (j, Gs) \<in> set (p # lv) \<and> 0 < j \<and> F \<in> set Gs}
            = set Fs \<union> {F. \<exists>j Gs. (j, Gs) \<in> set lv \<and> 0 < j \<and> F \<in> set Gs}"
        using True p by auto
      then show ?thesis using a(4) q(4) by (simp only:) blast
    qed
    ultimately show ?thesis by blast
  qed
qed

section \<open>The state after a run\<close>

lemma apriori_Inr:
  assumes "apriori (Apriori bs ms mc) = Some (Inr s)"
  obtains s1 where "freq_loop (Apriori bs ms mc) 0 = Some (Inr s1)" "mined bs ms mc s1"
    "loop_done s1" "conseq_dict s1 = Map.empty" "rule_list s1 = []"
    "all_rules (enumerate 0 (freq_list s1)) s1 = Inr s"
proof -
  obtain s1 where s1: "freq_loop (Apriori bs ms mc) 0 = Some (Inr s1)" "mined bs ms mc s1"
    "loop_done s1" "conseq_dict s1 = Map.empty" "rule_list s1 = []"
    using freq_loop_from_init [of bs ms mc] by blast
  then have "all_rules (enumerate 0 (freq_list s1)) s1 = Inr s"
    using assms by (simp add: apriori_def)
  then show ?thesis using s1 that by blast
qed

lemma level_card:
  assumes "mined bs ms mc s" "j < length (freq_list s)" "F \<in> set (freq_list s ! j)"
  shows "card F = Suc j" "F \<subseteq> items_of bs" "ms \<le> support_ratio bs F" "finite F"
proof -
  have "F \<in> {c. c \<subseteq> items_of bs \<and> card c = Suc j \<and> ms \<le> support_ratio bs c}"
    using mined_freq(3) [OF assms(1,2)] assms(3) by simp
  then show "card F = Suc j" "F \<subseteq> items_of bs" "ms \<le> support_ratio bs F" by simp_all
  then show "finite F" by (intro card_ge_0_finite) simp
qed

lemma enumerate_levels:
  "(i, Fs) \<in> set (enumerate 0 xs) \<longleftrightarrow> i < length xs \<and> Fs = xs ! i"
  using enumerate_mem [of "(i, Fs)" xs] by auto

lemma apriori_final:
  assumes "apriori (Apriori bs ms mc) = Some (Inr s)"
  shows "mined bs ms mc s"
    and "\<forall>r \<in> set (rule_list s).
           \<exists>i F. 0 < i \<and> i < length (freq_list s) \<and> F \<in> set (freq_list s ! i) \<and> sound_rule s F r"
    and "dom (conseq_dict s) = {F. \<exists>i. 0 < i \<and> i < length (freq_list s) \<and> F \<in> set (freq_list s ! i)}"
proof -
  from assms obtain s1 where s1: "mined bs ms mc s1" "conseq_dict s1 = Map.empty" "rule_list s1 = []"
    "all_rules (enumerate 0 (freq_list s1)) s1 = Inr s"
    by (rule apriori_Inr)
  have c: "\<forall>i Fs F. (i, Fs) \<in> set (enumerate 0 (freq_list s1)) \<longrightarrow> F \<in> set Fs \<longrightarrow> card F = Suc i"
    using level_card(1) [OF s1(1)] by (auto simp: enumerate_levels)
  from all_rules_post [OF s1(4) c]
  obtain rs where p: "same_levels s1 s" "rule_list s = rule_list s1 @ rs"
    "\<forall>r \<in> set rs. \<exists>i Fs F. (i, Fs) \<in> set (enumerate 0 (freq_list s1)) \<and> 0 < i \<and>
        F \<in> set Fs \<and> sound_rule s1 F r"
    "dom (conseq_dict s) = dom (conseq_dict s1) \<union>
        {F. \<exists>i Fs. (i, Fs) \<in> set (enumerate 0 (freq_list s1)) \<and> 0 < i \<and> F \<in> set Fs}"
    by blast
  have fl: "freq_list s = freq_list s1" using same_levels_fields(6) [OF p(1)] .
  show "mined bs ms mc s" using p(1) s1(1) by (rule mined_same_levels)
  show "\<forall>r \<in> set (rule_list s).
           \<exists>i F. 0 < i \<and> i < length (freq_list s) \<and> F \<in> set (freq_list s ! i) \<and> sound_rule s F r"
  proof
    fix r assume "r \<in> set (rule_list s)"
    then have "r \<in> set rs" using p(2) s1(3) by simp
    then obtain i Fs F where "(i, Fs) \<in> set (enumerate 0 (freq_list s1))" "0 < i" "F \<in> set Fs"
      "sound_rule s1 F r" using p(3) by blast
    then have "0 < i \<and> i < length (freq_list s) \<and> F \<in> set (freq_list s ! i) \<and> sound_rule s F r"
      using sound_rule_same_levels [OF p(1)] by (simp add: enumerate_levels fl)
    then show "\<exists>i F. 0 < i \<and> i < length (freq_list s) \<and> F \<in> set (freq_list s ! i) \<and> sound_rule s F r"
      by blast
  qed
  show "dom (conseq_dict s) = {F. \<exists>i. 0 < i \<and> i < length (freq_list s) \<and> F \<in> set (freq_list s ! i)}"
    unfolding p(4) s1(2) fl by (auto simp: enumerate_levels)
qed

text \<open>A small run, evaluated.\<close>

lemma small_run_eval:
  "(case apriori small_run of
      Some (Inr s) \<Rightarrow>
        map set (cand_list s) = [{{1}, {2}, {3}}, {{1, 2}, {1, 3}, {2, 3}}] \<and>
        map set (freq_list s) = [{{1}, {2}, {3}}, {{1, 2}}] \<and>
        rule_list s = [({2}, {1}, 1), ({1}, {2}, 1)] \<and>
        map (supp_dict s) [{1}, {2}, {3}, {1, 2}, {1, 3}] =
          [Some (3 / 4), Some (3 / 4), Some (1 / 2), Some (3 / 4), None] \<and>
        map (conseq_dict s) [{1}, {1, 2}] = [None, Some [[{1}, {2}]]]
    | _ \<Rightarrow> False)"
  by code_simp

lemma small_run_result:
  obtains s where "apriori (Apriori small_baskets (1 / 2) (1 / 2)) = Some (Inr s)"
    "map set (cand_list s) = [{{1}, {2}, {3}}, {{1, 2}, {1, 3}, {2, 3}}]"
    "map set (freq_list s) = [{{1}, {2}, {3}}, {{1, 2}}]"
    "rule_list s = [({2}, {1}, 1), ({1}, {2}, 1)]"
    "supp_dict s {1} = Some (3 / 4)" "supp_dict s {2} = Some (3 / 4)" "supp_dict s {3} = Some (1 / 2)"
    "supp_dict s {1, 2} = Some (3 / 4)" "supp_dict s {1, 3} = None"
    "conseq_dict s {1} = None" "conseq_dict s {1, 2} = Some [[{1}, {2}]]"
  using small_run_eval unfolding small_run_def
  by (auto split: option.splits sum.splits)

section \<open>Facts about the final state\<close>

lemma py_truediv_Inr: "py_truediv a b = Inr q \<Longrightarrow> b \<noteq> 0 \<and> q = round_float (a / b)"
  by (auto simp: py_truediv_def split: if_splits)

lemma in_concat_levels: "F \<in> set (concat xs) \<longleftrightarrow> (\<exists>j < length xs. F \<in> set (xs ! j))"
proof
  assume "F \<in> set (concat xs)"
  then obtain l where "l \<in> set xs" "F \<in> set l" by auto
  then show "\<exists>j < length xs. F \<in> set (xs ! j)" by (metis in_set_conv_nth)
next
  assume "\<exists>j < length xs. F \<in> set (xs ! j)"
  then obtain j where "j < length xs" "F \<in> set (xs ! j)" by blast
  then have "xs ! j \<in> set xs" by simp
  then show "F \<in> set (concat xs)" using \<open>F \<in> set (xs ! j)\<close> by auto
qed

lemma sound_ruleD:
  assumes "sound_rule s F (A, C, conf)"
  shows "C \<subseteq> F" "C \<noteq> {}" "C \<noteq> F" "A = F - C" "min_conf s \<le> conf"
    and "\<exists>supp_F supp_A. supp_dict s F = Some supp_F \<and> supp_dict s A = Some supp_A \<and>
            py_truediv supp_F supp_A = Inr conf"
  using assms unfolding sound_rule_def by blast+

lemma mined_antimono:
  assumes m: "mined bs ms mc s"
  shows "\<forall>A B a b. A \<subseteq> B \<and> supp_dict s A = Some a \<and> supp_dict s B = Some b \<longrightarrow> b \<le> a"
    and "\<forall>c F. c \<in> set (concat (cand_list s)) \<and> \<not> ms \<le> support_ratio bs c \<and> c \<subseteq> F
           \<longrightarrow> F \<notin> set (concat (freq_list s))"
proof -
  have v: "v = support_ratio bs c" if "supp_dict s c = Some v" for c v
    using mined_supp [OF m, of c] that by (simp split: if_splits)
  show "\<forall>A B a b. A \<subseteq> B \<and> supp_dict s A = Some a \<and> supp_dict s B = Some b \<longrightarrow> b \<le> a"
  proof (intro allI impI)
    fix A B a b
    assume h: "A \<subseteq> B \<and> supp_dict s A = Some a \<and> supp_dict s B = Some b"
    then have "a = support_ratio bs A" "b = support_ratio bs B" using v by simp_all
    then show "b \<le> a" using h support_ratio_antimono [of A B bs] by simp
  qed
  show "\<forall>c F. c \<in> set (concat (cand_list s)) \<and> \<not> ms \<le> support_ratio bs c \<and> c \<subseteq> F
           \<longrightarrow> F \<notin> set (concat (freq_list s))"
  proof (intro allI impI notI)
    fix c F
    assume a: "c \<in> set (concat (cand_list s)) \<and> \<not> ms \<le> support_ratio bs c \<and> c \<subseteq> F"
      and F: "F \<in> set (concat (freq_list s))"
    obtain j where j: "j < length (freq_list s)" "F \<in> set (freq_list s ! j)"
      using F unfolding in_concat_levels by (elim exE conjE)
    have "ms \<le> support_ratio bs F" using m j by (rule level_card(3))
    also have "\<dots> \<le> support_ratio bs c" using a by (intro support_ratio_antimono) simp
    finally show False using a by simp
  qed
qed

section \<open>The rule phase raises no error when the supports are recorded\<close>

lemma lookups_ok_same_levels: "same_levels s s' \<Longrightarrow> lookups_ok s F \<Longrightarrow> lookups_ok s' F"
  using same_levels_fields(7) [of s s'] by (simp add: lookups_ok_def)

lemma check_rule_runs:
  assumes "lookups_ok s F" "c \<subseteq> F" "c \<noteq> {}" "c \<noteq> F"
  shows "\<exists>ok s'. check_rule s F c = Inr (ok, s')"
proof -
  obtain supp_F where f: "supp_dict s F = Some supp_F"
    using assms(1) by (auto simp: lookups_ok_def)
  obtain v where v: "supp_dict s (F - c) = Some v" "0 < v"
    using assms unfolding lookups_ok_def by blast
  have "py_truediv supp_F v = Inr (round_float (supp_F / v))"
    using v(2) by (simp add: py_truediv_def)
  then show ?thesis by (auto simp: check_rule_def Let_def f v(1))
qed

lemma check_conseqs_runs:
  assumes "lookups_ok s F" "\<forall>c \<in> set cs. c \<subseteq> F \<and> c \<noteq> {} \<and> c \<noteq> F"
  shows "\<exists>s' acc'. check_conseqs F cs s acc = Inr (s', acc')"
  using assms
proof (induction cs arbitrary: s acc)
  case Nil
  then show ?case by simp
next
  case (Cons c cs)
  have c: "c \<subseteq> F" "c \<noteq> {}" "c \<noteq> F" using Cons.prems(2) by simp_all
  obtain ok s1 where c1: "check_rule s F c = Inr (ok, s1)"
    using check_rule_runs [OF Cons.prems(1) c] by blast
  have "lookups_ok s1 F"
    using check_rule_post(1) [OF c1] Cons.prems(1) by (rule lookups_ok_same_levels)
  then obtain s' acc' where
    "check_conseqs F cs s1 (if ok then acc @ [c] else acc) = Inr (s', acc')"
    using Cons.IH [of s1 "if ok then acc @ [c] else acc"] Cons.prems(2) by auto
  then show ?case using c1 by simp
qed

lemma conseq_cands_runs:
  assumes "conseq_dict s F = Some levels" "k \<le> length levels"
  shows "\<exists>cs. conseq_cands s F k = Inr cs"
proof (cases "k = 0")
  case True
  then show ?thesis by (simp add: conseq_cands_def)
next
  case False
  then have "py_index levels (int k - 1) = Inr (levels ! (k - 1))"
    using assms(2) by (intro py_index_pred) simp_all
  then show ?thesis using False assms(1) by (simp add: conseq_cands_def)
qed

lemma gen_conseqs_runs:
  assumes ok: "lookups_ok s F" and F: "card F = Suc i" and k: "k < i"
    and w: "conseqs_within s F" and lv: "conseq_dict s F = Some levels" "k \<le> length levels"
  shows "\<exists>s' levels'. gen_conseqs s F k = Inr s' \<and> conseq_dict s' F = Some levels' \<and>
            length levels \<le> length levels'"
proof -
  obtain cs where cs: "conseq_cands s F k = Inr cs"
    using conseq_cands_runs [OF lv] by blast
  note cw = conseq_cands_within [OF cs F k w]
  obtain s1 conseqs where chk: "check_conseqs F cs s [] = Inr (s1, conseqs)"
    using check_conseqs_runs [OF ok cw, of "[]"] by blast
  have cd: "conseq_dict s1 = conseq_dict s" using check_conseqs_post [OF chk cw] by simp
  show ?thesis
  proof (cases "conseqs = []")
    case True
    then have "gen_conseqs s F k = Inr s1" by (simp add: gen_conseqs_def cs chk)
    then show ?thesis using cd lv(1) by auto
  next
    case False
    then have "gen_conseqs s F k =
        Inr (s1\<lparr>conseq_dict := (conseq_dict s1)(F \<mapsto> levels @ [conseqs])\<rparr>)"
      by (simp add: gen_conseqs_def cs chk cd lv(1))
    then show ?thesis by auto
  qed
qed

lemma conseq_loop_runs:
  assumes "lookups_ok s F" "card F = Suc i" "conseqs_within s F"
    and "conseq_dict s F = Some levels" "k \<le> length levels"
  shows "\<exists>s'. conseq_loop s F i k = Inr s'"
  using assms
proof (induction s F i k arbitrary: levels rule: conseq_loop.induct)
  case (1 s F i k)
  show ?case
  proof (cases "k < i")
    case False
    then show ?thesis by (simp add: conseq_loop.simps [of s F i k])
  next
    case True
    obtain s1 levels1 where g: "gen_conseqs s F k = Inr s1" and l1: "conseq_dict s1 F = Some levels1"
      using gen_conseqs_runs [OF "1.prems"(1,2) True "1.prems"(3,4,5)] by blast
    note p = gen_conseqs_post [OF g "1.prems"(2) True "1.prems"(3)]
    show ?thesis
    proof (cases "length levels1 < k + 1")
      case short: True
      then show ?thesis using True g l1 by (simp add: conseq_loop.simps [of s F i k])
    next
      case long: False
      have ok1: "lookups_ok s1 F" using p(1) "1.prems"(1) by (rule lookups_ok_same_levels)
      have "k + 1 \<le> length levels1" using long by simp
      from "1.IH" [OF True g l1 long ok1 "1.prems"(2) p(3) l1 this]
      obtain s' where "conseq_loop s1 F i (k + 1) = Inr s'" by blast
      then show ?thesis using True g l1 long by (simp add: conseq_loop.simps [of s F i k])
    qed
  qed
qed

lemma level_rules_runs:
  assumes "\<forall>F \<in> set Fs. card F = Suc i \<and> lookups_ok s F"
  shows "\<exists>s'. level_rules i Fs s = Inr s'"
  using assms
proof (induction Fs arbitrary: s)
  case Nil
  then show ?case by simp
next
  case (Cons F Fs)
  let ?s0 = "s\<lparr>conseq_dict := (conseq_dict s)(F \<mapsto> [])\<rparr>"
  have F: "card F = Suc i" and ok: "lookups_ok s F" using Cons.prems by simp_all
  have sl0: "same_levels s ?s0" by (rule same_levels_update)
  have ok0: "lookups_ok ?s0 F" using sl0 ok by (rule lookups_ok_same_levels)
  have w: "conseqs_within ?s0 F" by (simp add: conseqs_within_def)
  have lv: "conseq_dict ?s0 F = Some []" "0 \<le> length ([] :: itemset list list)" by simp_all
  obtain s1 where l: "conseq_loop ?s0 F i 0 = Inr s1"
    using conseq_loop_runs [OF ok0 F w lv] by blast
  have sl1: "same_levels s s1"
    using sl0 conseq_loop_post [OF l F w] same_levels_trans by blast
  have "\<forall>G \<in> set Fs. card G = Suc i \<and> lookups_ok s1 G"
    using Cons.prems lookups_ok_same_levels [OF sl1] by simp
  then obtain s' where "level_rules i Fs s1 = Inr s'" using Cons.IH by blast
  then show ?case using l by simp
qed

lemma all_rules_runs:
  assumes "\<forall>i Fs F. (i, Fs) \<in> set lv \<longrightarrow> F \<in> set Fs \<longrightarrow> card F = Suc i \<and> lookups_ok s F"
  shows "\<exists>s'. all_rules lv s = Inr s'"
  using assms
proof (induction lv arbitrary: s)
  case Nil
  then show ?case by simp
next
  case (Cons p lv)
  obtain i Fs where p: "p = (i, Fs)" by (cases p)
  have tl: "\<forall>i Fs F. (i, Fs) \<in> set lv \<longrightarrow> F \<in> set Fs \<longrightarrow> card F = Suc i \<and> lookups_ok s F"
    using Cons.prems by (meson list.set_intros(2))
  show ?case
  proof (cases "0 < i")
    case False
    then show ?thesis using Cons.IH [OF tl] p by simp
  next
    case True
    have hd: "\<forall>F \<in> set Fs. card F = Suc i \<and> lookups_ok s F" using Cons.prems p by simp
    obtain s1 where l: "level_rules i Fs s = Inr s1" using level_rules_runs [OF hd] by blast
    have sl: "same_levels s s1" using level_rules_post [OF l] hd by simp
    have "\<forall>i Fs F. (i, Fs) \<in> set lv \<longrightarrow> F \<in> set Fs \<longrightarrow> card F = Suc i \<and> lookups_ok s1 F"
      using tl lookups_ok_same_levels [OF sl] by blast
    then obtain s' where "all_rules lv s1 = Inr s'" using Cons.IH by blast
    then show ?thesis using True p l by simp
  qed
qed

lemma mined_lookups_ok:
  assumes m: "mined bs ms mc s" and ms: "0 < ms"
    and j: "j < length (freq_list s)" and F: "F \<in> set (freq_list s ! j)"
  shows "lookups_ok s F"
proof -
  note c = level_card [OF m j F]
  have "supp_dict s F = Some (support_ratio bs F)"
    using mined_supp [OF m, of F] c j by simp
  moreover have "\<exists>v. supp_dict s (F - C) = Some v \<and> 0 < v" if C: "C \<subseteq> F \<and> C \<noteq> {} \<and> C \<noteq> F" for C
  proof -
    have ne: "F - C \<noteq> {}" using C by blast
    have fin: "finite (F - C)" using c(4) by simp
    have 1: "1 \<le> card (F - C)" using ne fin by (simp add: Suc_le_eq card_gt_0_iff)
    have 2: "card (F - C) \<le> length (freq_list s)"
      using card_mono [OF c(4), of "F - C"] c(1) j by simp
    have 3: "F - C \<subseteq> items_of bs" using c(2) by blast
    have "ms \<le> support_ratio bs F" by (rule c(3))
    also have "\<dots> \<le> support_ratio bs (F - C)" by (rule support_ratio_antimono) blast
    finally have 4: "ms \<le> support_ratio bs (F - C)" .
    have "supp_dict s (F - C) = Some (support_ratio bs (F - C))"
      using mined_supp [OF m, of "F - C"] 1 2 3 4 by simp
    moreover have "0 < support_ratio bs (F - C)" using 4 ms by simp
    ultimately show ?thesis by blast
  qed
  ultimately show ?thesis by (simp add: lookups_ok_def)
qed

lemma apriori_runs:
  assumes "0 < ms"
  shows "\<exists>s. apriori (Apriori bs ms mc) = Some (Inr s)"
proof -
  obtain s1 where s1: "freq_loop (Apriori bs ms mc) 0 = Some (Inr s1)" "mined bs ms mc s1"
    using freq_loop_from_init [of bs ms mc] by (elim exE conjE)
  have "\<forall>i Fs F. (i, Fs) \<in> set (enumerate 0 (freq_list s1)) \<longrightarrow> F \<in> set Fs \<longrightarrow>
          card F = Suc i \<and> lookups_ok s1 F"
  proof (intro allI impI)
    fix i Fs F
    assume a: "(i, Fs) \<in> set (enumerate 0 (freq_list s1))" "F \<in> set Fs"
    then have i: "i < length (freq_list s1)" "F \<in> set (freq_list s1 ! i)"
      by (simp_all add: enumerate_levels)
    show "card F = Suc i \<and> lookups_ok s1 F"
      using level_card(1) [OF s1(2) i] mined_lookups_ok [OF s1(2) assms i] by simp
  qed
  then obtain s where "all_rules (enumerate 0 (freq_list s1)) s1 = Inr s"
    using all_rules_runs by blast
  then have "apriori (Apriori bs ms mc) = Some (Inr s)" by (simp add: apriori_def s1(1))
  then show ?thesis by (rule exI)
qed

section \<open>Each round of the loop binds new keys only\<close>






section \<open>The rule phase binds each frequent itemset once\<close>












section \<open>C3: the frequent-itemset filter\<close>

text \<open>
  Claim C3. For every candidate set (a level of \<open>cand_list\<close>, free of duplicates as a
  Python set is) and every non-empty basket collection, \<open>gen_freqs\<close> returns normally,
  keeps exactly the candidates whose support ratio (the number of baskets containing the
  candidate, divided by the number of baskets, as Python's division computes it) is
  greater than or equal to \<open>min_supp\<close>, in the candidates' order, appends them as a new
  frequent level when there are any, and records exactly that ratio as the support of
  each kept itemset, leaving every other entry of the support map as it was.
\<close>

theorem gen_freqs_keeps_exactly:
  assumes "1 \<le> k" "k \<le> length (cand_list s)" "distinct (cand_list s ! (k - 1))"
    and "baskets s \<noteq> []" "n_baskets s = length (baskets s)"
  shows "\<exists>s' freqs.
           gen_freqs s k = Inr s' \<and>
           freqs = filter (\<lambda>c. min_supp s \<le> support_ratio (baskets s) c) (cand_list s ! (k - 1)) \<and>
           freq_list s' = (if freqs = [] then freq_list s else freq_list s @ [freqs]) \<and>
           (\<forall>c. supp_dict s' c =
                  (if c \<in> set freqs then Some (support_ratio (baskets s) c) else supp_dict s c))"
  using gen_freqs_eq [OF assms] by (auto simp: Let_def filter_empty_conv)

theorem gen_freqs_keeps_exactly_witness:
  "\<exists>s'. gen_freqs c3_state 1 = Inr s' \<and> freq_list s' = [[{1}, {2}]] \<and>
        supp_dict s' {1} = Some (support_ratio [[1, 2], [1], [2, 3]] {1}) \<and>
        supp_dict s' {3} = None"
proof -
  have a: "(1::nat) \<le> 1" "1 \<le> length (cand_list c3_state)"
    "distinct (cand_list c3_state ! (1 - 1))" "baskets c3_state \<noteq> []"
    "n_baskets c3_state = length (baskets c3_state)"
    by (simp_all add: c3_state_def Apriori_def)
  obtain s' freqs where r: "gen_freqs c3_state 1 = Inr s'"
    and f: "freqs = filter (\<lambda>c. min_supp c3_state \<le> support_ratio (baskets c3_state) c)
              (cand_list c3_state ! (1 - 1))"
    and fl: "freq_list s' = (if freqs = [] then freq_list c3_state else freq_list c3_state @ [freqs])"
    and sd: "\<And>c. supp_dict s' c =
               (if c \<in> set freqs then Some (support_ratio (baskets c3_state) c)
                else supp_dict c3_state c)"
    using gen_freqs_keeps_exactly [OF a] by blast
  have f': "freqs = [{1}, {2}]" unfolding f by code_simp
  have "freq_list s' = [[{1}, {2}]]"
    using fl by (simp add: f' c3_state_def Apriori_def)
  moreover have "supp_dict s' {1} = Some (support_ratio [[1, 2], [1], [2, 3]] {1})"
    by (simp add: sd f' c3_state_def Apriori_def)
  moreover have "supp_dict s' {3} = None"
    by (simp add: sd f' c3_state_def Apriori_def)
  ultimately show ?thesis using r by blast
qed

section \<open>C5: candidate generation\<close>

text \<open>
  Claim C5. At \<open>k = 0\<close> candidate generation produces, free of duplicates, exactly the
  set of all singleton itemsets of items that occur in some basket. At \<open>k > 0\<close>, from the
  frequent level \<open>freq_list[k - 1]\<close> of itemsets of size \<open>k\<close>, it produces, free of
  duplicates, exactly the set of unions of two distinct itemsets of that level whose
  union has size \<open>k + 1\<close>. The result is appended to \<open>cand_list\<close> when it is not empty.
  When there are no baskets (at \<open>k = 0\<close>) or the input level is empty (at \<open>k > 0\<close>) the
  result is empty and the state is left as it was.
\<close>

theorem gen_cands_returns:
  "(\<exists>cands. distinct cands \<and> set cands = {{x} | x. \<exists>basket \<in> set (baskets s). x \<in> set basket} \<and>
      gen_cands s 0 = Inr (if cands \<noteq> [] then s\<lparr>cand_list := cand_list s @ [cands]\<rparr> else s)) \<and>
   (0 < k \<and> k \<le> length (freq_list s) \<and> (\<forall>f \<in> set (freq_list s ! (k - 1)). card f = k) \<longrightarrow>
     (\<exists>cands. distinct cands \<and>
        set cands = {a \<union> b | a b. a \<in> set (freq_list s ! (k - 1)) \<and> b \<in> set (freq_list s ! (k - 1)) \<and>
                        a \<noteq> b \<and> card (a \<union> b) = k + 1} \<and>
        gen_cands s k = Inr (if cands \<noteq> [] then s\<lparr>cand_list := cand_list s @ [cands]\<rparr> else s))) \<and>
   (baskets s = [] \<longrightarrow> gen_cands s 0 = Inr s) \<and>
   (0 < k \<and> k \<le> length (freq_list s) \<and> freq_list s ! (k - 1) = [] \<longrightarrow> gen_cands s k = Inr s)"
proof (intro conjI impI)
  let ?c0 = "singleton_cands (baskets s)"
  have "set ?c0 = {{x} | x. \<exists>basket \<in> set (baskets s). x \<in> set basket}"
    unfolding set_singleton_cands items_of_def by blast
  moreover have "distinct ?c0" by (rule distinct_singleton_cands)
  moreover have "gen_cands s 0 = Inr (if ?c0 \<noteq> [] then s\<lparr>cand_list := cand_list s @ [?c0]\<rparr> else s)"
    by (rule gen_cands_zero)
  ultimately show "\<exists>cands. distinct cands \<and>
      set cands = {{x} | x. \<exists>basket \<in> set (baskets s). x \<in> set basket} \<and>
      gen_cands s 0 = Inr (if cands \<noteq> [] then s\<lparr>cand_list := cand_list s @ [cands]\<rparr> else s)"
    by (intro exI [of _ ?c0] conjI)
next
  let ?fs = "freq_list s ! (k - 1)"
  let ?ck = "join_cands k ?fs"
  assume a: "0 < k \<and> k \<le> length (freq_list s) \<and> (\<forall>f \<in> set ?fs. card f = k)"
  then have k: "1 \<le> k" "k \<le> length (freq_list s)" and sz: "\<forall>f \<in> set ?fs. card f = k"
    by simp_all
  have "gen_cands s k = Inr (if ?ck \<noteq> [] then s\<lparr>cand_list := cand_list s @ [?ck]\<rparr> else s)"
    using k by (rule gen_cands_pos)
  moreover have "distinct ?ck" by (rule distinct_join_cands)
  moreover have "set ?ck = {a \<union> b | a b. a \<in> set ?fs \<and> b \<in> set ?fs \<and> a \<noteq> b \<and> card (a \<union> b) = k + 1}"
    using sz by (rule join_cands_sized)
  ultimately show "\<exists>cands. distinct cands \<and>
        set cands = {a \<union> b | a b. a \<in> set ?fs \<and> b \<in> set ?fs \<and> a \<noteq> b \<and> card (a \<union> b) = k + 1} \<and>
        gen_cands s k = Inr (if cands \<noteq> [] then s\<lparr>cand_list := cand_list s @ [cands]\<rparr> else s)"
    by (intro exI [of _ ?ck] conjI)
next
  assume "baskets s = []"
  then show "gen_cands s 0 = Inr s" by (simp add: gen_cands_zero singleton_cands_def)
next
  assume a: "0 < k \<and> k \<le> length (freq_list s) \<and> freq_list s ! (k - 1) = []"
  then have k: "1 \<le> k" "k \<le> length (freq_list s)" by simp_all
  show "gen_cands s k = Inr s"
    unfolding gen_cands_pos [OF k] using a by (simp add: join_cands_Nil)
qed

theorem gen_cands_returns_witness:
  "(\<exists>cands. distinct cands \<and>
      set cands = {a \<union> b | a b. a \<in> set (freq_list c5_state ! (1 - 1)) \<and>
                      b \<in> set (freq_list c5_state ! (1 - 1)) \<and> a \<noteq> b \<and> card (a \<union> b) = 1 + 1} \<and>
      gen_cands c5_state 1 =
        Inr (if cands \<noteq> [] then c5_state\<lparr>cand_list := cand_list c5_state @ [cands]\<rparr>
             else c5_state)) \<and>
   baskets c5_empty = [] \<and> gen_cands c5_empty 0 = Inr c5_empty \<and>
   freq_list c5_empty ! (1 - 1) = [] \<and> gen_cands c5_empty 1 = Inr c5_empty"
proof -
  have h1: "0 < (1::nat) \<and> 1 \<le> length (freq_list c5_state) \<and>
            (\<forall>f \<in> set (freq_list c5_state ! (1 - 1)). card f = 1)"
    by (simp add: c5_state_def Apriori_def)
  have h2: "baskets c5_empty = []"
    by (simp add: c5_empty_def Apriori_def)
  have h3: "0 < (1::nat) \<and> 1 \<le> length (freq_list c5_empty) \<and> freq_list c5_empty ! (1 - 1) = []"
    by (simp add: c5_empty_def Apriori_def)
  note r1 = gen_cands_returns [of c5_state 1, THEN conjunct2, THEN conjunct1, rule_format, OF h1]
  note r2 = gen_cands_returns [of c5_empty 1, THEN conjunct2, THEN conjunct2, THEN conjunct1,
      rule_format, OF h2]
  note r3 = gen_cands_returns [of c5_empty 1, THEN conjunct2, THEN conjunct2, THEN conjunct2,
      rule_format, OF h3]
  show ?thesis using h2 h3 r1 r2 r3 by (intro conjI) simp_all
qed

section \<open>C1: no configuration is rejected\<close>

text \<open>
  Claim C1 says that an empty basket collection, or a threshold outside \<open>(0, 1]\<close>, makes
  the construction or the run fail at once. The program has no such check. With no
  baskets and the default-like thresholds \<open>0.5\<close> and \<open>0.8\<close> the run returns normally and
  leaves the freshly constructed state as it is.
\<close>

theorem empty_baskets_run_counterexample:
  "apriori (Apriori [] (1 / 2) (4 / 5)) = Some (Inr (Apriori [] (1 / 2) (4 / 5)))"
  by (rule apriori_no_baskets)

text \<open>
  Claim C1, amended. Construction is total and checks nothing. With an empty basket
  collection, whatever the thresholds, the run returns normally and changes nothing;
  with \<open>min_supp > 1\<close>, whatever the baskets and \<open>min_conf\<close>, the run returns normally
  with no frequent itemset, no recorded support and no rule.
\<close>

theorem invalid_configuration_runs:
  "apriori (Apriori [] ms mc) = Some (Inr (Apriori [] ms mc)) \<and>
   (1 < ms \<longrightarrow>
      (\<exists>s. apriori (Apriori bs ms mc) = Some (Inr s) \<and> freq_list s = [] \<and>
           supp_dict s = Map.empty \<and> rule_list s = []))"
  using apriori_no_baskets apriori_min_supp_above_one by blast

theorem invalid_configuration_runs_witness:
  "(1::rat) < 2 \<and>
   (\<exists>s. apriori (Apriori [[1, 2], [2]] 2 (4 / 5)) = Some (Inr s) \<and> freq_list s = [] \<and>
        supp_dict s = Map.empty \<and> rule_list s = [])"
proof -
  have h: "(1::rat) < 2" by simp
  note r = invalid_configuration_runs [of 2 "4 / 5" "[[1, 2], [2]]", THEN conjunct2, rule_format, OF h]
  show ?thesis using h r by (intro conjI)
qed

section \<open>C4: the scenario of the specification\<close>

text \<open>
  Claim C4, at its own input: five baskets, \<open>min_supp = 0.6\<close> and \<open>min_conf = 0.75\<close>. The
  claim expects the frequent itemsets \<open>{1}\<close>, \<open>{2}\<close>, \<open>{3}\<close> with support \<open>0.8\<close> and
  \<open>{1,2}\<close>, \<open>{1,3}\<close>, \<open>{2,3}\<close> with support \<open>0.6\<close>, the itemset \<open>{1,2,3}\<close> (support \<open>0.4\<close>)
  left out, and the rules between two items, of confidence \<open>0.75\<close>, included. The run
  returns normally and agrees on the frequent itemsets and their supports (the floats
  nearest to \<open>4/5\<close> and \<open>3/5\<close>), the support \<open>0.6\<close> at the boundary \<open>min_supp\<close> being kept.
  It records no rule, although the confidence of \<open>{1} \<rightarrow> {2}\<close>, three baskets out of the
  four with \<open>{1}\<close>, is exactly \<open>min_conf\<close>: \<open>check_rule\<close> divides the two supports that
  were already rounded, and the float quotient \<open>0.6 / 0.8\<close> is
  \<open>6755399441055743 / 2^53 = 0.7499999999999999\<close>, below \<open>0.75\<close>.
\<close>

theorem scenario_result:
  "\<exists>s. apriori scenario = Some (Inr s) \<and>
     map set (freq_list s) = [{{1}, {2}, {3}}, {{1, 2}, {1, 3}, {2, 3}}] \<and>
     supp_dict s {1} = Some (round_float (4 / 5)) \<and>
     supp_dict s {2} = Some (round_float (4 / 5)) \<and>
     supp_dict s {3} = Some (round_float (4 / 5)) \<and>
     supp_dict s {1, 2} = Some (round_float (3 / 5)) \<and>
     supp_dict s {1, 3} = Some (round_float (3 / 5)) \<and>
     supp_dict s {2, 3} = Some (round_float (3 / 5)) \<and>
     supp_dict s {1, 2, 3} = None \<and>
     support_ratio (baskets scenario) {1, 2, 3} = round_float (2 / 5) \<and>
     round_float (2 / 5) < min_supp scenario \<and>
     (of_nat (basket_count (baskets scenario) {1, 2}) :: rat) /
       of_nat (basket_count (baskets scenario) {1}) = min_conf scenario \<and>
     py_truediv (round_float (3 / 5)) (round_float (4 / 5)) = Inr (6755399441055743 / 9007199254740992) \<and>
     (6755399441055743 / 9007199254740992 :: rat) < min_conf scenario \<and>
     rule_list s = []"
proof -
  have "min_conf scenario = 3 / 4" by (simp add: scenario_def Apriori_def)
  then show ?thesis
    using scenario_run scenario_confidence scenario_exact
    by (auto split: option.splits sum.splits)
qed

section \<open>C9: a rule can be recorded more than once\<close>

text \<open>
  Claim C9. There is an input on which the rule list of a run holds the same triple more
  than once. With the single basket \<open>{1,2,3,4}\<close> and the default thresholds, the itemset
  \<open>{1,2,3,4}\<close> is frequent, every rule derived from it has confidence \<open>1\<close>, and the rule
  \<open>{4} \<rightarrow> {1,2,3}\<close> with confidence \<open>1\<close> stands three times in the rule list: the
  consequence \<open>{1,2,3}\<close> is the union of three different pairs of consequences of size two,
  and each pair leads to its own confidence check and its own entry.
\<close>

theorem repeated_rule:
  "\<exists>s. apriori four_items = Some (Inr s) \<and> {1, 2, 3, 4} \<in> set (freq_list s ! 3) \<and>
       count_list (rule_list s) ({4}, {1, 2, 3}, 1) = 3"
  using four_items_run by (auto split: option.splits sum.splits)

section \<open>C6: the run terminates\<close>

text \<open>
  Claim C6. For every basket collection and all thresholds the run terminates. The
  level-wise loop is left, without an error, in a state where either candidate
  generation gave no new candidates or no candidate of the last level reaches
  \<open>min_supp\<close>; the rule phase that follows is a terminating function of that state, its
  loop for one frequent itemset of level \<open>i\<close> (of \<open>i + 1\<close> items) running at most \<open>i\<close>
  times, as the termination measure \<open>i - k\<close> of \<open>conseq_loop\<close> shows.
\<close>

theorem apriori_terminates:
  "\<exists>s'. freq_loop (Apriori bs ms mc) 0 = Some (Inr s') \<and> loop_done s' \<and>
        apriori (Apriori bs ms mc) = Some (all_rules (enumerate 0 (freq_list s')) s')"
proof -
  obtain s' where "freq_loop (Apriori bs ms mc) 0 = Some (Inr s')" "loop_done s'"
    using freq_loop_from_init [of bs ms mc] by blast
  then show ?thesis by (auto simp: apriori_def)
qed

section \<open>C2: every recorded rule is sound\<close>

text \<open>
  Claim C2. For every rule \<open>(A, C, conf)\<close> in the rule list after a run that returns: \<open>A\<close>
  and \<open>C\<close> are disjoint, \<open>C\<close> is a strict non-empty subset of a recorded frequent itemset
  \<open>F\<close>, \<open>A\<close> is the non-empty difference \<open>F - C\<close> (so \<open>A \<union> C = F\<close>), \<open>conf\<close> is the quotient
  of the supports of \<open>F\<close> and of \<open>A\<close> as the support map stores them (a float division by
  a divisor that is not zero), and \<open>conf\<close> is at least \<open>min_conf\<close>.
\<close>

theorem rules_sound:
  assumes "apriori (Apriori bs ms mc) = Some (Inr s)" and "(A, C, conf) \<in> set (rule_list s)"
  shows "A \<inter> C = {} \<and>
     (\<exists>F supp_F supp_A.
        F \<in> set (concat (freq_list s)) \<and> C \<subset> F \<and> C \<noteq> {} \<and> A = F - C \<and> A \<noteq> {} \<and> A \<union> C = F \<and>
        supp_dict s F = Some supp_F \<and> supp_dict s A = Some supp_A \<and> supp_A \<noteq> 0 \<and>
        conf = round_float (supp_F / supp_A)) \<and>
     mc \<le> conf"
proof -
  note fin = apriori_final [OF assms(1)]
  have "\<exists>i F. 0 < i \<and> i < length (freq_list s) \<and> F \<in> set (freq_list s ! i) \<and>
          sound_rule s F (A, C, conf)"
    using fin(2) assms(2) by (rule bspec)
  then obtain i F where F: "0 < i" "i < length (freq_list s)" "F \<in> set (freq_list s ! i)"
    "sound_rule s F (A, C, conf)"
    by (elim exE conjE)
  note r = sound_ruleD [OF F(4)]
  obtain supp_F supp_A where l: "supp_dict s F = Some supp_F" "supp_dict s A = Some supp_A"
    "py_truediv supp_F supp_A = Inr conf"
    using r(6) by blast
  have 1: "F \<in> set (concat (freq_list s))"
    unfolding in_concat_levels using F(2,3) by (intro exI [of _ i]) simp
  have 2: "C \<subset> F" using r(1,3) by blast
  have 3: "A \<noteq> {}" using r(1,3,4) by blast
  have 4: "A \<union> C = F" using r(1,4) by blast
  have 5: "A \<inter> C = {}" using r(4) by blast
  have 6: "supp_A \<noteq> 0" "conf = round_float (supp_F / supp_A)"
    using py_truediv_Inr [OF l(3)] by simp_all
  have 7: "mc \<le> conf" using r(5) mined_fields(4) [OF fin(1)] by simp
  have "F \<in> set (concat (freq_list s)) \<and> C \<subset> F \<and> C \<noteq> {} \<and> A = F - C \<and> A \<noteq> {} \<and> A \<union> C = F \<and>
        supp_dict s F = Some supp_F \<and> supp_dict s A = Some supp_A \<and> supp_A \<noteq> 0 \<and>
        conf = round_float (supp_F / supp_A)"
    using 1 2 3 4 6 l(1,2) r(2,4) by simp
  then have "\<exists>F supp_F supp_A.
        F \<in> set (concat (freq_list s)) \<and> C \<subset> F \<and> C \<noteq> {} \<and> A = F - C \<and> A \<noteq> {} \<and> A \<union> C = F \<and>
        supp_dict s F = Some supp_F \<and> supp_dict s A = Some supp_A \<and> supp_A \<noteq> 0 \<and>
        conf = round_float (supp_F / supp_A)"
    by (intro exI)
  then show ?thesis using 5 7 by simp
qed

theorem rules_sound_witness:
  "\<exists>s. apriori (Apriori small_baskets (1 / 2) (1 / 2)) = Some (Inr s) \<and>
       ({2}, {1}, 1) \<in> set (rule_list s) \<and> {2 :: nat} \<inter> {1} = {} \<and>
       (\<exists>F supp_F supp_A.
          F \<in> set (concat (freq_list s)) \<and> {1} \<subset> F \<and> {1 :: nat} \<noteq> {} \<and> {2} = F - {1} \<and>
          {2 :: nat} \<noteq> {} \<and> {2} \<union> {1} = F \<and>
          supp_dict s F = Some supp_F \<and> supp_dict s {2} = Some supp_A \<and> supp_A \<noteq> 0 \<and>
          (1 :: rat) = round_float (supp_F / supp_A)) \<and>
       (1 / 2 :: rat) \<le> 1"
proof -
  obtain s where s: "apriori (Apriori small_baskets (1 / 2) (1 / 2)) = Some (Inr s)"
    "rule_list s = [({2}, {1}, 1), ({1}, {2}, 1)]"
    by (rule small_run_result)
  have m: "({2}, {1}, 1) \<in> set (rule_list s)" by (simp add: s(2))
  show ?thesis using rules_sound [OF s(1) m] s(1) m by (intro exI [of _ s]) simp
qed

section \<open>C7: support is antimonotone\<close>

text \<open>
  Claim C7. In the state at the end of the level-wise loop, and in the final state of a
  run that returns, for all itemsets \<open>A \<subseteq> B\<close> whose supports are both recorded in the
  support map, the support of \<open>B\<close> is at most the support of \<open>A\<close>; and no superset of a
  candidate that failed the test against \<open>min_supp\<close> stands in any frequent level.
\<close>

theorem support_antimonotone:
  assumes "freq_loop (Apriori bs ms mc) 0 = Some (Inr s) \<or> apriori (Apriori bs ms mc) = Some (Inr s)"
  shows "(\<forall>A B a b. A \<subseteq> B \<and> supp_dict s A = Some a \<and> supp_dict s B = Some b \<longrightarrow> b \<le> a) \<and>
         (\<forall>c F. c \<in> set (concat (cand_list s)) \<and> \<not> ms \<le> support_ratio bs c \<and> c \<subseteq> F
           \<longrightarrow> F \<notin> set (concat (freq_list s)))"
proof -
  have "mined bs ms mc s"
    using assms
  proof
    assume l: "freq_loop (Apriori bs ms mc) 0 = Some (Inr s)"
    obtain s' where s': "freq_loop (Apriori bs ms mc) 0 = Some (Inr s')" "mined bs ms mc s'"
      using freq_loop_from_init [of bs ms mc] by (elim exE conjE)
    have "s' = s" using l s'(1) by simp
    then show ?thesis using s'(2) by simp
  next
    assume "apriori (Apriori bs ms mc) = Some (Inr s)"
    then show ?thesis by (rule apriori_final(1))
  qed
  then show ?thesis by (intro conjI mined_antimono)
qed

theorem support_antimonotone_witness:
  "\<exists>s. apriori (Apriori small_baskets (1 / 2) (1 / 2)) = Some (Inr s) \<and>
       supp_dict s {1} = Some (3 / 4) \<and> supp_dict s {1, 2} = Some (3 / 4) \<and> (3 / 4 :: rat) \<le> 3 / 4 \<and>
       {1, 3} \<in> set (concat (cand_list s)) \<and>
       \<not> 1 / 2 \<le> support_ratio small_baskets {1, 3} \<and>
       {1, 2, 3} \<notin> set (concat (freq_list s))"
proof -
  obtain s where s: "apriori (Apriori small_baskets (1 / 2) (1 / 2)) = Some (Inr s)"
    "map set (cand_list s) = [{{1}, {2}, {3}}, {{1, 2}, {1, 3}, {2, 3}}]"
    "supp_dict s {1} = Some (3 / 4)" "supp_dict s {1, 2} = Some (3 / 4)"
    by (rule small_run_result)
  have c: "{1, 3} \<in> set (concat (cand_list s))"
  proof -
    have "\<Union> (set (map set (cand_list s))) = {{1}, {2}, {3}, {1, 2}, {1, 3}, {2, 3}}"
      unfolding s(2) by auto
    then show ?thesis by auto
  qed
  have f: "\<not> 1 / 2 \<le> support_ratio small_baskets {1, 3}" by code_simp
  have sub: "{1, 3} \<subseteq> {1, 2, 3 :: nat}" by simp
  note t = support_antimonotone [OF disjI2, OF s(1)]
  have "{1, 2, 3} \<notin> set (concat (freq_list s))"
    using t [THEN conjunct2] c f sub by blast
  moreover have "(3 / 4 :: rat) \<le> 3 / 4" by simp
  ultimately show ?thesis using s(1,3,4) c f by blast
qed

section \<open>C10: the lookups of the confidence check succeed\<close>

text \<open>
  Claim C10. When the basket collection is not empty and \<open>min_supp\<close> is positive, the run
  returns without an error, so no lookup of \<open>check_rule\<close> fails and no divisor is zero.
  In its final state, for every frequent itemset \<open>F\<close> and every non-empty strict subset
  \<open>C\<close> of \<open>F\<close> (every consequence that can be checked), the support of \<open>F\<close> is recorded and
  the support of the antecedent \<open>F - C\<close> is recorded and strictly positive; in particular
  this holds of the antecedent of every recorded rule.
\<close>

theorem lookups_succeed:
  assumes "bs \<noteq> []" "0 < ms"
  shows "\<exists>s. apriori (Apriori bs ms mc) = Some (Inr s) \<and>
           (\<forall>F C. F \<in> set (concat (freq_list s)) \<and> C \<subseteq> F \<and> C \<noteq> {} \<and> C \<noteq> F \<longrightarrow>
              supp_dict s F \<noteq> None \<and> (\<exists>v. supp_dict s (F - C) = Some v \<and> 0 < v)) \<and>
           (\<forall>A C conf. (A, C, conf) \<in> set (rule_list s) \<longrightarrow> (\<exists>v. supp_dict s A = Some v \<and> 0 < v))"
proof -
  obtain s where s: "apriori (Apriori bs ms mc) = Some (Inr s)"
    using apriori_runs [OF assms(2), of bs mc] by blast
  note fin = apriori_final [OF s]
  have ok: "lookups_ok s F" if "j < length (freq_list s)" "F \<in> set (freq_list s ! j)" for j F
    using fin(1) assms(2) that by (rule mined_lookups_ok)
  have 1: "\<forall>F C. F \<in> set (concat (freq_list s)) \<and> C \<subseteq> F \<and> C \<noteq> {} \<and> C \<noteq> F \<longrightarrow>
              supp_dict s F \<noteq> None \<and> (\<exists>v. supp_dict s (F - C) = Some v \<and> 0 < v)"
  proof (intro allI impI)
    fix F C
    assume a: "F \<in> set (concat (freq_list s)) \<and> C \<subseteq> F \<and> C \<noteq> {} \<and> C \<noteq> F"
    then obtain j where "j < length (freq_list s)" "F \<in> set (freq_list s ! j)"
      unfolding in_concat_levels by (elim exE conjE)
    then have "lookups_ok s F" by (rule ok)
    then show "supp_dict s F \<noteq> None \<and> (\<exists>v. supp_dict s (F - C) = Some v \<and> 0 < v)"
      using a unfolding lookups_ok_def by blast
  qed
  have 2: "\<forall>A C conf. (A, C, conf) \<in> set (rule_list s) \<longrightarrow> (\<exists>v. supp_dict s A = Some v \<and> 0 < v)"
  proof (intro allI impI)
    fix A C conf
    assume "(A, C, conf) \<in> set (rule_list s)"
    with fin(2) have "\<exists>i F. 0 < i \<and> i < length (freq_list s) \<and> F \<in> set (freq_list s ! i) \<and>
          sound_rule s F (A, C, conf)"
      by (rule bspec)
    then obtain i F where F: "i < length (freq_list s)" "F \<in> set (freq_list s ! i)"
      "sound_rule s F (A, C, conf)"
      by (elim exE conjE)
    note r = sound_ruleD [OF F(3)]
    have "lookups_ok s F" using F(1,2) by (rule ok)
    then have "\<exists>v. supp_dict s (F - C) = Some v \<and> 0 < v"
      using r(1,2,3) unfolding lookups_ok_def by blast
    then show "\<exists>v. supp_dict s A = Some v \<and> 0 < v" by (simp only: r(4))
  qed
  show ?thesis using s 1 2 by (intro exI [of _ s] conjI)
qed

theorem lookups_succeed_witness:
  "small_baskets \<noteq> [] \<and> (0 :: rat) < 1 / 2 \<and>
   (\<exists>s. apriori (Apriori small_baskets (1 / 2) (1 / 2)) = Some (Inr s) \<and>
        ({2}, {1}, 1) \<in> set (rule_list s) \<and> (\<exists>v. supp_dict s {2} = Some v \<and> 0 < v))"
proof -
  have h: "small_baskets \<noteq> []" "(0 :: rat) < 1 / 2" by (simp_all add: small_baskets_def)
  from lookups_succeed [OF h, of "1 / 2"]
  obtain s where all: "apriori (Apriori small_baskets (1 / 2) (1 / 2)) = Some (Inr s) \<and>
           (\<forall>F C. F \<in> set (concat (freq_list s)) \<and> C \<subseteq> F \<and> C \<noteq> {} \<and> C \<noteq> F \<longrightarrow>
              supp_dict s F \<noteq> None \<and> (\<exists>v. supp_dict s (F - C) = Some v \<and> 0 < v)) \<and>
           (\<forall>A C conf. (A, C, conf) \<in> set (rule_list s) \<longrightarrow> (\<exists>v. supp_dict s A = Some v \<and> 0 < v))" ..
  have s: "apriori (Apriori small_baskets (1 / 2) (1 / 2)) = Some (Inr s)"
    using all by (rule conjunct1)
  have r: "\<forall>A C conf. (A, C, conf) \<in> set (rule_list s) \<longrightarrow> (\<exists>v. supp_dict s A = Some v \<and> 0 < v)"
    using all by (elim conjE)
  obtain s' where s': "apriori (Apriori small_baskets (1 / 2) (1 / 2)) = Some (Inr s')"
    "rule_list s' = [({2}, {1}, 1), ({1}, {2}, 1)]"
    by (rule small_run_result)
  have "s' = s" using s s'(1) by simp
  then have m: "({2}, {1}, 1) \<in> set (rule_list s)" using s'(2) by simp
  have v: "\<exists>v. supp_dict s {2} = Some v \<and> 0 < v"
    using r [rule_format, OF m] .
  show ?thesis using h s m v by (intro conjI exI [of _ s])
qed

section \<open>C8: the two dictionaries are append-only\<close>




end
